theory Spec2Isabelle
  imports Complex_Main
begin

section \<open>Strings and numbers of the host language\<close>

text \<open>
  A JavaScript string is modelled as a \<^typ>\<open>string\<close>: a list of code units, of which the
  256 of \<^typ>\<open>char\<close> are available.  Of the characters that the regular expressions of
  the program treat specially, the line terminators U+2028 and U+2029 and the blanks
  beyond U+00FF are therefore not representable.  A Number is modelled exactly (a
  rational, an infinity or NaN): the model agrees with IEEE doubles wherever no rounding
  occurs, in particular on all integers of magnitude up to \<open>2^53\<close>.
\<close>

definition is_digit :: "char \<Rightarrow> bool" where
  "is_digit c = (c \<in> set ''0123456789'')"

definition digit_val :: "char \<Rightarrow> int" where
  "digit_val c = of_char c - 48"

definition digits_value :: "int \<Rightarrow> string \<Rightarrow> int" where
  "digits_value base s = foldl (\<lambda>a c. base * a + digit_val c) 0 s"

text \<open>White space and line terminators (the class \<open>\s\<close>, and \<open>StrWhiteSpaceChar\<close>).\<close>

definition is_space :: "char \<Rightarrow> bool" where
  "is_space c = (c \<in> set [CHR 0x09, CHR 0x0A, CHR 0x0B, CHR 0x0C, CHR 0x0D, CHR 0x20, CHR 0xA0])"

text \<open>The class \<open>\w\<close>.\<close>

definition is_word :: "char \<Rightarrow> bool" where
  "is_word c = (c \<in> set ''abcdefghijklmnopqrstuvwxyzABCDEFGHIJKLMNOPQRSTUVWXYZ0123456789_'')"

datatype number = NaN | Infinity bool | Finite rat

text \<open>\<open>split_at p s\<close>: the part of \<open>s\<close> before the first character with \<open>p\<close>, and the part
  after it when there is one.\<close>

fun split_at :: "(char \<Rightarrow> bool) \<Rightarrow> string \<Rightarrow> string \<times> string option" where
  "split_at p [] = ([], None)"
| "split_at p (c # cs) =
     (if p c then ([], Some cs)
      else (case split_at p cs of (a, b) \<Rightarrow> (c # a, b)))"

definition pow10 :: "int \<Rightarrow> rat" where
  "pow10 e = (if 0 \<le> e then 10 ^ nat e else 1 / 10 ^ nat (- e))"

text \<open>An unsigned decimal literal: \<open>digits [. digits?] | . digits\<close>, then an optional
  exponent part \<open>e [+-]? digits\<close>.  It is the unsigned part of the library's pattern
  \<^verbatim>\<open>/^-?(?:\d+(?:\.\d*)?|\.\d+)(?:e[+-]?\d+)?$/i\<close> and the language's
  \<open>StrUnsignedDecimalLiteral\<close> without \<open>Infinity\<close>.\<close>

definition dec_mantissa :: "string \<Rightarrow> (int \<times> nat) option" where
  "dec_mantissa s =
     (case split_at (\<lambda>c. c = CHR ''.'') s of
        (ip, None) \<Rightarrow>
          if ip \<noteq> [] \<and> list_all is_digit ip then Some (digits_value 10 ip, 0) else None
      | (ip, Some fp) \<Rightarrow>
          if list_all is_digit ip \<and> list_all is_digit fp \<and> \<not> (ip = [] \<and> fp = [])
          then Some (digits_value 10 (ip @ fp), length fp) else None)"

definition unsigned_integer :: "string \<Rightarrow> int option" where
  "unsigned_integer ds =
     (if ds \<noteq> [] \<and> list_all is_digit ds then Some (digits_value 10 ds) else None)"

definition dec_exponent :: "string \<Rightarrow> int option" where
  "dec_exponent s =
     (case s of
        [] \<Rightarrow> None
      | c # ds \<Rightarrow>
          if c = CHR ''+'' then unsigned_integer ds
          else if c = CHR ''-'' then map_option uminus (unsigned_integer ds)
          else unsigned_integer s)"

definition dec_literal :: "string \<Rightarrow> rat option" where
  "dec_literal s =
     (case split_at (\<lambda>c. c = CHR ''e'' \<or> c = CHR ''E'') s of
        (m, None) \<Rightarrow>
          (case dec_mantissa m of
             None \<Rightarrow> None
           | Some (c, k) \<Rightarrow> Some (of_int c / 10 ^ k))
      | (m, Some ex) \<Rightarrow>
          (case dec_mantissa m of
             None \<Rightarrow> None
           | Some (c, k) \<Rightarrow>
               (case dec_exponent ex of
                  None \<Rightarrow> None
                | Some e \<Rightarrow> Some (of_int c / 10 ^ k * pow10 e))))"

text \<open>\<open>0x\<close>, \<open>0o\<close> and \<open>0b\<close> integer literals (\<open>NonDecimalIntegerLiteral\<close>).\<close>

definition radix_digit_val :: "char \<Rightarrow> int" where
  "radix_digit_val c =
     (if is_digit c then digit_val c
      else if c \<in> set ''abcdef'' then of_char c - 87
      else of_char c - 55)"

definition radix_digits :: "int \<Rightarrow> string \<Rightarrow> int option" where
  "radix_digits base ds =
     (if ds \<noteq> [] \<and> list_all (\<lambda>c. c \<in> set ''0123456789abcdefABCDEF'' \<and> radix_digit_val c < base) ds
      then Some (foldl (\<lambda>a c. base * a + radix_digit_val c) 0 ds) else None)"

definition radix_literal :: "string \<Rightarrow> int option" where
  "radix_literal s =
     (case s of
        z # p # ds \<Rightarrow>
          if z \<noteq> CHR ''0'' then None
          else if p \<in> set ''xX'' then radix_digits 16 ds
          else if p \<in> set ''oO'' then radix_digits 8 ds
          else if p \<in> set ''bB'' then radix_digits 2 ds
          else None
      | _ \<Rightarrow> None)"

definition trim :: "string \<Rightarrow> string" where
  "trim s = rev (dropWhile is_space (rev (dropWhile is_space s)))"

text \<open>\<open>ToNumber\<close> on a string (\<open>StringToNumber\<close>).\<close>

definition StringToNumber :: "string \<Rightarrow> number" where
  "StringToNumber str =
     (let s = trim str in
      if s = [] then Finite 0
      else
        (case radix_literal s of
           Some n \<Rightarrow> Finite (of_int n)
         | None \<Rightarrow>
             (let neg = (take 1 s = ''-'');
                  u = (if take 1 s = ''-'' \<or> take 1 s = ''+'' then drop 1 s else s)
              in if u = ''Infinity'' then Infinity neg
                 else (case dec_literal u of
                         None \<Rightarrow> NaN
                       | Some q \<Rightarrow> Finite (if neg then - q else q)))))"

text \<open>The global \<open>isNaN\<close> on a string argument.\<close>

definition isNaN :: "string \<Rightarrow> bool" where
  "isNaN s = (StringToNumber s = NaN)"

text \<open>\<open>Number.parseInt(s, 10)\<close>: leading white space and one sign are skipped, the longest
  run of decimal digits is read; the result is an integer, or NaN (\<open>None\<close>) when there
  is no digit.  The language rounds the integer read to the nearest double; here it is
  kept exactly, which is the language's result for the safe integers, those below
  \<open>2^53\<close> in absolute value (\<open>safe_integer\<close>), and not beyond them.\<close>

definition parseInt :: "string \<Rightarrow> int option" where
  "parseInt str =
     (let s = dropWhile is_space str;
          neg = (take 1 s = ''-'');
          u = (if take 1 s = ''-'' \<or> take 1 s = ''+'' then drop 1 s else s);
          z = takeWhile is_digit u
      in if z = [] then None
         else Some (if neg then - digits_value 10 z else digits_value 10 z))"

definition of_parseInt :: "int option \<Rightarrow> number" where
  "of_parseInt n = (case n of None \<Rightarrow> NaN | Some i \<Rightarrow> Finite (of_int i))"

text \<open>\<open>Number.prototype.toString\<close> on the results of \<open>parseInt\<close>: the decimal digits of the
  integer.  This is the language's result for the safe integers; the language prints
  an integer from \<open>10^21\<close> on in exponent notation, which is not modelled.\<close>

function nat_digits :: "nat \<Rightarrow> string" where
  "nat_digits n =
     (if n < 10 then [''0123456789'' ! n]
      else nat_digits (n div 10) @ [''0123456789'' ! (n mod 10)])"
  by pat_completeness auto
termination
  by (relation "measure id") auto

definition int_toString :: "int \<Rightarrow> string" where
  "int_toString i =
     (if i < 0 then CHR ''-'' # nat_digits (nat (- i)) else nat_digits (nat i))"

definition parseInt_toString :: "int option \<Rightarrow> string" where
  "parseInt_toString n = (case n of None \<Rightarrow> ''NaN'' | Some i \<Rightarrow> int_toString i)"


section \<open>Decimal numbers of the bignumber.js library\<close>

text \<open>
  The amounts are values of the arbitrary-precision decimal library bignumber.js, used
  with its default configuration (\<open>DECIMAL_PLACES = 20\<close>, \<open>ROUNDING_MODE = ROUND_HALF_UP\<close>).
  A value is NaN, an infinity, or a sign with a non-negative magnitude (so that minus
  zero exists, as in the library).  Magnitudes are exact rationals; the library's
  exponent limits, beyond which a value of more than ten million digits turns into an
  infinity or zero, are not modelled.
\<close>

datatype bignumber = BigNaN | BigInfinity bool | Big bool rat

datatype rounding_mode =
    ROUND_UP | ROUND_DOWN | ROUND_CEIL | ROUND_FLOOR
  | ROUND_HALF_UP | ROUND_HALF_DOWN | ROUND_HALF_EVEN | ROUND_HALF_CEIL | ROUND_HALF_FLOOR

definition ROUNDING_MODE :: rounding_mode where
  "ROUNDING_MODE = ROUND_HALF_UP"

definition DECIMAL_PLACES :: nat where
  "DECIMAL_PLACES = 20"

text \<open>Rounding of a magnitude \<open>q \<ge> 0\<close> of sign \<open>neg\<close> to an integer magnitude.\<close>

definition round_magnitude :: "rounding_mode \<Rightarrow> bool \<Rightarrow> rat \<Rightarrow> int" where
  "round_magnitude rm neg q =
     (let lo = \<lfloor>q\<rfloor>; up = \<lceil>q\<rceil>; fr = q - of_int \<lfloor>q\<rfloor>
      in case rm of
           ROUND_UP \<Rightarrow> up
         | ROUND_DOWN \<Rightarrow> lo
         | ROUND_CEIL \<Rightarrow> (if neg then lo else up)
         | ROUND_FLOOR \<Rightarrow> (if neg then up else lo)
         | ROUND_HALF_UP \<Rightarrow> (if fr < 1 / 2 then lo else up)
         | ROUND_HALF_DOWN \<Rightarrow> (if fr \<le> 1 / 2 then lo else up)
         | ROUND_HALF_EVEN \<Rightarrow>
             (if fr < 1 / 2 \<or> (fr = 1 / 2 \<and> even lo) then lo else up)
         | ROUND_HALF_CEIL \<Rightarrow>
             (if fr < 1 / 2 \<or> (fr = 1 / 2 \<and> neg) then lo else up)
         | ROUND_HALF_FLOOR \<Rightarrow>
             (if fr < 1 / 2 \<or> (fr = 1 / 2 \<and> \<not> neg) then lo else up))"

text \<open>\<open>BigNumber(n)\<close> for an integer Number \<open>n\<close>.\<close>

definition BigNumber_int :: "int \<Rightarrow> bignumber" where
  "BigNumber_int n = Big (n < 0) (of_int \<bar>n\<bar>)"

text \<open>
  \<open>BigNumber(str)\<close>.  A string in decimal notation, with an optional minus sign and an
  optional exponent, is taken as it is.  Any other string first loses a leading plus
  sign (with the white space before it, when a word character or a point follows),
  else its leading white space, and its trailing white space
  (\<^verbatim>\<open>/^\s*\+(?=[\w.])|^\s+|\s+$/g\<close>); then it is \<open>Infinity\<close>, \<open>-Infinity\<close>, \<open>NaN\<close>, \<open>-NaN\<close>,
  a string in decimal notation, or not a number.  The library also converts literals
  with a prefix \<open>0x\<close>, \<open>0b\<close> or \<open>0o\<close> from their base: these are outside the model, which
  answers NaN for them.
\<close>

definition decimal_notation :: "string \<Rightarrow> bignumber option" where
  "decimal_notation str =
     (let neg = (take 1 str = ''-'');
          u = (if take 1 str = ''-'' then drop 1 str else str)
      in map_option (Big neg) (dec_literal u))"

definition whitespaceOrPlus :: "string \<Rightarrow> string" where
  "whitespaceOrPlus str =
     (let r = dropWhile is_space str;
          s = (case r of
                 p # c # cs \<Rightarrow>
                   if p = CHR ''+'' \<and> (is_word c \<or> c = CHR ''.'') then c # cs else r
               | _ \<Rightarrow> r)
      in rev (dropWhile is_space (rev s)))"

definition parseNumeric :: "string \<Rightarrow> bignumber" where
  "parseNumeric str =
     (let s = whitespaceOrPlus str
      in if s = ''Infinity'' then BigInfinity False
         else if s = ''-Infinity'' then BigInfinity True
         else if s = ''NaN'' \<or> s = ''-NaN'' then BigNaN
         else if str \<noteq> s
           then (case decimal_notation s of None \<Rightarrow> BigNaN | Some b \<Rightarrow> b)
           else BigNaN)"

definition BigNumber :: "string \<Rightarrow> bignumber" where
  "BigNumber str =
     (case decimal_notation str of
        Some b \<Rightarrow> b
      | None \<Rightarrow> parseNumeric str)"

definition BigNumber_isNaN :: "bignumber \<Rightarrow> bool" where
  "BigNumber_isNaN x = (x = BigNaN)"

definition isNegative :: "bignumber \<Rightarrow> bool" where
  "isNegative x =
     (case x of BigNaN \<Rightarrow> False | BigInfinity neg \<Rightarrow> neg | Big neg q \<Rightarrow> neg)"

definition multipliedBy :: "bignumber \<Rightarrow> bignumber \<Rightarrow> bignumber" where
  "multipliedBy x y =
     (case (x, y) of
        (BigNaN, _) \<Rightarrow> BigNaN
      | (_, BigNaN) \<Rightarrow> BigNaN
      | (BigInfinity a, BigInfinity b) \<Rightarrow> BigInfinity (a \<noteq> b)
      | (BigInfinity a, Big b q) \<Rightarrow> if q = 0 then BigNaN else BigInfinity (a \<noteq> b)
      | (Big a p, BigInfinity b) \<Rightarrow> if p = 0 then BigNaN else BigInfinity (a \<noteq> b)
      | (Big a p, Big b q) \<Rightarrow> Big (a \<noteq> b) (p * q))"

definition integerValue :: "bignumber \<Rightarrow> bignumber" where
  "integerValue x =
     (case x of
        Big neg q \<Rightarrow> Big neg (of_int (round_magnitude ROUNDING_MODE neg q))
      | _ \<Rightarrow> x)"

definition dividedBy :: "bignumber \<Rightarrow> bignumber \<Rightarrow> bignumber" where
  "dividedBy x y =
     (case (x, y) of
        (BigNaN, _) \<Rightarrow> BigNaN
      | (_, BigNaN) \<Rightarrow> BigNaN
      | (BigInfinity a, BigInfinity b) \<Rightarrow> BigNaN
      | (BigInfinity a, Big b q) \<Rightarrow> BigInfinity (a \<noteq> b)
      | (Big a p, BigInfinity b) \<Rightarrow> Big (a \<noteq> b) 0
      | (Big a p, Big b q) \<Rightarrow>
          if q = 0 then (if p = 0 then BigNaN else BigInfinity (a \<noteq> b))
          else Big (a \<noteq> b)
                 (of_int (round_magnitude ROUNDING_MODE (a \<noteq> b) (p / q * 10 ^ DECIMAL_PLACES))
                    / 10 ^ DECIMAL_PLACES))"

section \<open>Field codecs: amounts and dates\<close>

datatype key = KNum int | KStr string

datatype error =
    UnknownTag string
  | CannotParseTag key string
  | NotReversalOrExpectedMark string
  | WrongDebitCreditMark string
  | AmountCannotBeParsed string
  | PositiveAmountExpected string
  | TypeError

text \<open>\<open>String.prototype.replace\<close> with two one-character strings: the first occurrence.\<close>

fun replace_first :: "char \<Rightarrow> char \<Rightarrow> string \<Rightarrow> string" where
  "replace_first a b [] = []"
| "replace_first a b (c # cs) = (if c = a then b # cs else c # replace_first a b cs)"

text \<open>\<open>BankAmount.parse(dcmark, amountStr)\<close>.\<close>

definition BankAmount_parse :: "string \<Rightarrow> string \<Rightarrow> error + bignumber" where
  "BankAmount_parse dcmark amountStr =
     (let eOrR = (if length dcmark = 2 then Some (dcmark ! 0) else None);
          dc = (if length dcmark = 2 then [dcmark ! 1] else dcmark)
      in if (case eOrR of None \<Rightarrow> False | Some c \<Rightarrow> c \<notin> set ''ER'')
           then Inl (NotReversalOrExpectedMark dcmark)
         else if \<not> (dc = ''D'' \<or> dc = ''C'') then Inl (WrongDebitCreditMark dcmark)
         else
           (let amount = BigNumber (replace_first (CHR '','') (CHR ''.'') amountStr)
            in if BigNumber_isNaN amount then Inl (AmountCannotBeParsed amountStr)
               else if isNegative amount then Inl (PositiveAmountExpected amountStr)
               else
                 (let amount1 = (if dc = ''D'' then multipliedBy amount (BigNumber_int (- 1))
                                 else amount);
                      amount2 = (if eOrR = Some (CHR ''R'')
                                 then multipliedBy amount1 (BigNumber_int (- 1)) else amount1)
                  in Inr (dividedBy (integerValue (multipliedBy amount2 (BigNumber_int 100)))
                            (BigNumber_int 100)))))"

text \<open>The sign that \<open>BankAmount.parse\<close> gives under a valid mark, a change of sign, and
  the outcome of the parse as arithmetic: the amount times 100, rounded to the nearest
  integer with a tie going away from zero, over 100.\<close>

definition debit_sign :: "string \<Rightarrow> bool" where
  "debit_sign dcmark = (dcmark \<in> {''D'', ''ED'', ''RC''})"

definition negated :: "bignumber \<Rightarrow> bignumber" where
  "negated x =
     (case x of
        BigNaN \<Rightarrow> BigNaN
      | BigInfinity neg \<Rightarrow> BigInfinity (\<not> neg)
      | Big neg q \<Rightarrow> Big (\<not> neg) q)"

definition amount_result :: "string \<Rightarrow> bool \<Rightarrow> error + bignumber" where
  "amount_result amountStr debit =
     (case BigNumber (replace_first (CHR '','') (CHR ''.'') amountStr) of
        BigNaN \<Rightarrow> Inl (AmountCannotBeParsed amountStr)
      | BigInfinity neg \<Rightarrow>
          if neg then Inl (PositiveAmountExpected amountStr) else Inr (BigInfinity debit)
      | Big neg q \<Rightarrow>
          if neg then Inl (PositiveAmountExpected amountStr)
          else Inr (Big debit (of_int \<lfloor>q * 100 + 1 / 2\<rfloor> / 100)))"

text \<open>
  Dates.  A \<open>Date\<close> object holds a time value, the milliseconds since 1 January 1970
  UTC, or NaN (\<open>None\<close>, an invalid date).  \<open>Date.UTC\<close> is the language's: \<open>MakeDay\<close>,
  \<open>MakeDate\<close> and \<open>TimeClip\<close>, computed exactly.
\<close>

datatype js_date = Date "int option"

definition truncate :: "rat \<Rightarrow> int" where
  "truncate q = (if 0 \<le> q then \<lfloor>q\<rfloor> else \<lceil>q\<rceil>)"

definition DayFromYear :: "int \<Rightarrow> int" where
  "DayFromYear y =
     365 * (y - 1970) + (y - 1969) div 4 - (y - 1901) div 100 + (y - 1601) div 400"

definition InLeapYear :: "int \<Rightarrow> bool" where
  "InLeapYear y = (y mod 4 = 0 \<and> (y mod 100 \<noteq> 0 \<or> y mod 400 = 0))"

definition days_before_month :: "int \<Rightarrow> nat \<Rightarrow> int" where
  "days_before_month y mn =
     (let cumulative = [0, 31, 59, 90, 120, 151, 181, 212, 243, 273, 304, 334]
      in cumulative ! mn + (if 2 \<le> mn \<and> InLeapYear y then 1 else 0))"

definition MakeDay :: "number \<Rightarrow> number \<Rightarrow> number \<Rightarrow> int option" where
  "MakeDay year month date =
     (case (year, month, date) of
        (Finite yq, Finite mq, Finite dq) \<Rightarrow>
          (let y = truncate yq; m = truncate mq; dt = truncate dq;
               ym = y + m div 12;
               mn = nat (m mod 12)
           in Some (DayFromYear ym + days_before_month ym mn + dt - 1))
      | _ \<Rightarrow> None)"

definition TimeClip :: "int option \<Rightarrow> int option" where
  "TimeClip t =
     (case t of
        None \<Rightarrow> None
      | Some v \<Rightarrow> if \<bar>v\<bar> > 8640000000000000 then None else Some v)"

definition Date_UTC :: "number \<Rightarrow> number \<Rightarrow> number \<Rightarrow> int option" where
  "Date_UTC year month date =
     (let yr = (case year of
                  Finite yq \<Rightarrow>
                    if 0 \<le> truncate yq \<and> truncate yq \<le> 99
                    then Finite (of_int (1900 + truncate yq)) else year
                | _ \<Rightarrow> year)
      in TimeClip (map_option (\<lambda>d. d * 86400000) (MakeDay yr month date)))"

text \<open>\<open>BankDate.parse(year, month, day)\<close>.\<close>

definition BankDate_parse :: "string \<Rightarrow> string \<Rightarrow> string \<Rightarrow> js_date" where
  "BankDate_parse year month day =
     (let fullyear = parseInt year;
          fullyear = (case fullyear of
                        None \<Rightarrow> None
                      | Some y \<Rightarrow> if y < 100 then Some (y + 2000) else Some y)
      in Date (TimeClip (Date_UTC (of_parseInt fullyear)
                 (of_parseInt (map_option (\<lambda>m. m - 1) (parseInt month)))
                 (StringToNumber day))))"


section \<open>Regular expressions\<close>

text \<open>
  The patterns of the tags are written in the following syntax, and matched as the
  language prescribes: by backtracking, each alternative tried in order with the rest of
  the pattern as its continuation, a greedy quantifier trying the longest repetition
  first and a lazy one the shortest.  Quantifiers with bounds occur in the tags'
  patterns only on character classes, and optional parts (\<open>(...)?\<close>) only on groups that
  cannot match the empty string.
\<close>

datatype cclass = OneOf string | NoneOf string

definition in_class :: "cclass \<Rightarrow> char \<Rightarrow> bool" where
  "in_class cc c = (case cc of OneOf cs \<Rightarrow> c \<in> set cs | NoneOf cs \<Rightarrow> c \<notin> set cs)"

datatype regex =
    Eps
  | Bol
  | Eol
  | Cls cclass
  | Rep cclass nat "nat option" bool
  | Seq regex regex
  | Alt regex regex
  | Opt regex
  | Grp nat regex
  | Ahead regex

text \<open>The state of a match: the index reached, the rest of the input from there, and
  the captures so far.\<close>

datatype mstate = MState (pos: nat) (rest: string) (caps: "nat \<Rightarrow> string option")

definition advance :: "mstate \<Rightarrow> mstate" where
  "advance s = MState (Suc (pos s)) (tl (rest s)) (caps s)"

definition set_cap :: "nat \<Rightarrow> string \<Rightarrow> mstate \<Rightarrow> mstate" where
  "set_cap n v s = MState (pos s) (rest s) ((caps s)(n := Some v))"

text \<open>\<open>rep_greedy cc lo hi k cs s\<close>: the quantifier \<open>cc{lo,hi}\<close> at state \<open>s\<close>, whose rest is
  \<open>cs\<close>; \<open>hi = None\<close> is no upper bound.\<close>

fun rep_greedy ::
  "cclass \<Rightarrow> nat \<Rightarrow> nat option \<Rightarrow> (mstate \<Rightarrow> mstate option) \<Rightarrow> string \<Rightarrow> mstate \<Rightarrow> mstate option"
where
  "rep_greedy cc lo hi k [] s = (if lo = 0 then k s else None)"
| "rep_greedy cc lo hi k (c # cs) s =
     (if hi \<noteq> Some 0 \<and> in_class cc c
      then (case rep_greedy cc (lo - 1) (map_option (\<lambda>h. h - 1) hi) k cs (advance s) of
              Some r \<Rightarrow> Some r
            | None \<Rightarrow> if lo = 0 then k s else None)
      else if lo = 0 then k s else None)"

fun rep_lazy ::
  "cclass \<Rightarrow> nat \<Rightarrow> nat option \<Rightarrow> (mstate \<Rightarrow> mstate option) \<Rightarrow> string \<Rightarrow> mstate \<Rightarrow> mstate option"
where
  "rep_lazy cc lo hi k [] s = (if lo = 0 then k s else None)"
| "rep_lazy cc lo hi k (c # cs) s =
     (case (if lo = 0 then k s else None) of
        Some r \<Rightarrow> Some r
      | None \<Rightarrow>
          if hi \<noteq> Some 0 \<and> in_class cc c
          then rep_lazy cc (lo - 1) (map_option (\<lambda>h. h - 1) hi) k cs (advance s)
          else None)"

primrec rmatch :: "regex \<Rightarrow> (mstate \<Rightarrow> mstate option) \<Rightarrow> mstate \<Rightarrow> mstate option" where
  "rmatch Eps k s = k s"
| "rmatch Bol k s = (if pos s = 0 then k s else None)"
| "rmatch Eol k s = (if rest s = [] then k s else None)"
| "rmatch (Cls cc) k s =
     (case rest s of
        [] \<Rightarrow> None
      | c # cs \<Rightarrow> if in_class cc c then k (advance s) else None)"
| "rmatch (Rep cc lo hi greedy) k s =
     (if greedy then rep_greedy cc lo hi k (rest s) s else rep_lazy cc lo hi k (rest s) s)"
| "rmatch (Seq r1 r2) k s = rmatch r1 (rmatch r2 k) s"
| "rmatch (Alt r1 r2) k s =
     (case rmatch r1 k s of Some r \<Rightarrow> Some r | None \<Rightarrow> rmatch r2 k s)"
| "rmatch (Opt r) k s =
     (case rmatch r k s of Some r \<Rightarrow> Some r | None \<Rightarrow> k s)"
| "rmatch (Grp n r) k s =
     rmatch r (\<lambda>s'. k (set_cap n (take (pos s' - pos s) (rest s)) s')) s"
| "rmatch (Ahead r) k s =
     (case rmatch r Some s of
        None \<Rightarrow> None
      | Some s' \<Rightarrow> k (MState (pos s) (rest s) (caps s')))"

text \<open>The result of \<open>RegExp.prototype.exec\<close>: the index after the match (the next
  \<open>lastIndex\<close> of a global pattern) and the groups, group 0 being the whole match.\<close>

datatype rmatch_result = Match (end_index: nat) (groups: "nat \<Rightarrow> string option")

text \<open>\<open>scan r i cs\<close> tries the pattern at index \<open>i\<close>, where the rest of the input is \<open>cs\<close>,
  and then at each later index.\<close>

fun scan :: "regex \<Rightarrow> nat \<Rightarrow> string \<Rightarrow> rmatch_result option" where
  "scan r i [] =
     (case rmatch (Grp 0 r) Some (MState i [] (\<lambda>n. None)) of
        Some s \<Rightarrow> Some (Match (pos s) (caps s))
      | None \<Rightarrow> None)"
| "scan r i (c # cs) =
     (case rmatch (Grp 0 r) Some (MState i (c # cs) (\<lambda>n. None)) of
        Some s \<Rightarrow> Some (Match (pos s) (caps s))
      | None \<Rightarrow> scan r (Suc i) cs)"

definition exec :: "regex \<Rightarrow> string \<Rightarrow> nat \<Rightarrow> rmatch_result option" where
  "exec r str lastIndex =
     (if lastIndex > length str then None else scan r lastIndex (drop lastIndex str))"

text \<open>Abbreviations for the patterns.\<close>

definition digit :: cclass where
  "digit = OneOf ''0123456789''"

definition upper :: cclass where
  "upper = OneOf ''ABCDEFGHIJKLMNOPQRSTUVWXYZ''"

definition dot :: cclass where
  "dot = NoneOf [CHR 0x0A, CHR 0x0D]"

definition Chr :: "char \<Rightarrow> regex" where
  "Chr c = Cls (OneOf [c])"

definition times :: "cclass \<Rightarrow> nat \<Rightarrow> nat \<Rightarrow> regex" where
  "times cc lo hi = Rep cc lo (Some hi) True"


text \<open>The part of a text before its first line terminator, and the longest run that a
  greedy quantifier \<open>cc{0,hi}\<close> takes at the start of a text.\<close>

definition first_line :: "string \<Rightarrow> string" where
  "first_line str = takeWhile (\<lambda>c. c \<notin> set [CHR 0x0A, CHR 0x0D]) str"

definition greedy_run :: "cclass \<Rightarrow> nat option \<Rightarrow> string \<Rightarrow> string" where
  "greedy_run cc hi cs =
     (case hi of
        None \<Rightarrow> takeWhile (in_class cc) cs
      | Some h \<Rightarrow> take h (takeWhile (in_class cc) cs))"

section \<open>Tags\<close>

text \<open>The value of a field.  An offset date-time is computed by the library moment.js,
  which is outside this development: the value is kept as the text and the format
  handed to it.\<close>

datatype fvalue =
    VUndefined
  | VString string
  | VBool bool
  | VDate js_date
  | VAmount bignumber
  | VMoment string string

text \<open>\<open>BankDate.forOffsetDateTime({date, time, offset})\<close>.\<close>

definition forOffsetDateTime :: "string \<Rightarrow> string \<Rightarrow> string \<Rightarrow> fvalue" where
  "forOffsetDateTime date time offset = VMoment (date @ time @ offset) ''YYMMDDHmmZZ''"

datatype tag_class =
    TagTransactionReferenceNumber
  | TagRelatedReference
  | TagAccountIdentification
  | TagStatementNumber
  | TagDebitAndCreditFloorLimit
  | TagDateTimeIndication
  | TagNonSwift
  | TagOpeningBalance
  | TagClosingBalance
  | TagNumberAndSumOfEntriesD
  | TagNumberAndSumOfEntriesC
  | TagStatementLine
  | TagTransactionDetails
  | TagClosingAvailableBalance
  | TagForwardAvailableBalance
  | TagMessageBlock
  | TagDateTimeIndication13

fun ID :: "tag_class \<Rightarrow> key" where
  "ID TagTransactionReferenceNumber = KNum 20"
| "ID TagRelatedReference = KNum 21"
| "ID TagAccountIdentification = KNum 25"
| "ID TagStatementNumber = KNum 28"
| "ID TagDebitAndCreditFloorLimit = KStr ''34F''"
| "ID TagDateTimeIndication = KStr ''13D''"
| "ID TagNonSwift = KStr ''NS''"
| "ID TagOpeningBalance = KNum 60"
| "ID TagClosingBalance = KNum 62"
| "ID TagNumberAndSumOfEntriesD = KStr ''90D''"
| "ID TagNumberAndSumOfEntriesC = KStr ''90C''"
| "ID TagStatementLine = KNum 61"
| "ID TagTransactionDetails = KNum 86"
| "ID TagClosingAvailableBalance = KNum 64"
| "ID TagForwardAvailableBalance = KNum 65"
| "ID TagMessageBlock = KStr ''MB''"
| "ID TagDateTimeIndication13 = KStr ''13''"

subsection \<open>The patterns\<close>

text \<open>\<^verbatim>\<open>/^(.{0,16})/\<close>, \<^verbatim>\<open>/^(.{0,35})/\<close>, \<^verbatim>\<open>/^(.*)/\<close> and \<^verbatim>\<open>/^([\s\S]{0,390})/\<close>\<close>

definition PATTERN_upto :: "nat \<Rightarrow> regex" where
  "PATTERN_upto n = Seq Bol (Grp 1 (times dot 0 n))"

definition PATTERN_NonSwift :: regex where
  "PATTERN_NonSwift = Seq Bol (Grp 1 (Rep dot 0 None True))"

definition PATTERN_TransactionDetails :: regex where
  "PATTERN_TransactionDetails = Seq Bol (Grp 1 (times (NoneOf []) 0 390))"

text \<open>\<^verbatim>\<open>/^(\d{1,5})(\/(\d{1,5}))?(\/(\d{1,5}))?/\<close>\<close>

definition PATTERN_StatementNumber :: regex where
  "PATTERN_StatementNumber =
     Seq Bol (Seq (Grp 1 (times digit 1 5))
       (Seq (Opt (Grp 2 (Seq (Chr (CHR ''/'')) (Grp 3 (times digit 1 5)))))
            (Opt (Grp 4 (Seq (Chr (CHR ''/'')) (Grp 5 (times digit 1 5)))))))"

text \<open>\<^verbatim>\<open>/^([A-Z]{3})([A-Z]{1})?(\d{1,15})/\<close>\<close>

definition PATTERN_FloorLimit :: regex where
  "PATTERN_FloorLimit =
     Seq Bol (Seq (Grp 1 (times upper 3 3))
       (Seq (Opt (Grp 2 (times upper 1 1))) (Grp 3 (times digit 1 15))))"

text \<open>\<^verbatim>\<open>/^(\d{6})(\d{4})([+-]{1}\d{4})/\<close> and \<^verbatim>\<open>/^(\d{6})(\d{4})/\<close>\<close>

definition PATTERN_DateTimeIndication :: regex where
  "PATTERN_DateTimeIndication =
     Seq Bol (Seq (Grp 1 (times digit 6 6))
       (Seq (Grp 2 (times digit 4 4))
            (Grp 3 (Seq (times (OneOf ''+-'') 1 1) (times digit 4 4)))))"

definition PATTERN_DateTimeIndication13 :: regex where
  "PATTERN_DateTimeIndication13 =
     Seq Bol (Seq (Grp 1 (times digit 6 6)) (Grp 2 (times digit 4 4)))"

text \<open>\<^verbatim>\<open>^([DC])(\d{2})(\d{2})(\d{2})([A-Z]{3})([0-9,]{0,16})\<close>\<close>

definition PATTERN_Balance :: regex where
  "PATTERN_Balance =
     Seq Bol (Seq (Grp 1 (Cls (OneOf ''DC'')))
       (Seq (Grp 2 (times digit 2 2))
       (Seq (Grp 3 (times digit 2 2))
       (Seq (Grp 4 (times digit 2 2))
       (Seq (Grp 5 (times upper 3 3))
            (Grp 6 (times (OneOf ''0123456789,'') 0 16)))))))"

text \<open>\<^verbatim>\<open>/^(\d{1,5})([A-Z]{3})(\d{1,15})/\<close>\<close>

definition PATTERN_NumberAndSumOfEntries :: regex where
  "PATTERN_NumberAndSumOfEntries =
     Seq Bol (Seq (Grp 1 (times digit 1 5))
       (Seq (Grp 2 (times upper 3 3)) (Grp 3 (times digit 1 15))))"

text \<open>The statement line:
  \<^verbatim>\<open>^(\d{2})(\d{2})(\d{2})((\d{2})(\d{2}))?([E|R]?[DC])([A-Z])?([0-9,]{0,16})\<close>
  \<^verbatim>\<open>([A-Z][A-Z0-9]{3})([^/\n]{0,16})(//(.{0,16}))?(\n(.{0,34}))?\<close>.
  The part after the optional entry date is \<open>StatementLine_rest\<close>, and its part after
  the debit/credit mark is \<open>StatementLine_tail\<close>.\<close>

definition StatementLine_tail :: regex where
  "StatementLine_tail =
     Seq (Opt (Grp 8 (Cls upper)))
       (Seq (Grp 9 (times (OneOf ''0123456789,'') 0 16))
       (Seq (Grp 10 (Seq (Cls upper)
                      (times (OneOf ''ABCDEFGHIJKLMNOPQRSTUVWXYZ0123456789'') 3 3)))
       (Seq (Grp 11 (times (NoneOf [CHR ''/'', CHR 0x0A]) 0 16))
       (Seq (Opt (Grp 12 (Seq (Chr (CHR ''/'')) (Seq (Chr (CHR ''/''))
                            (Grp 13 (times dot 0 16))))))
            (Opt (Grp 14 (Seq (Chr (CHR 0x0A)) (Grp 15 (times dot 0 34)))))))))"

definition StatementLine_rest :: regex where
  "StatementLine_rest =
     Seq (Grp 7 (Seq (times (OneOf ''E|R'') 0 1) (Cls (OneOf ''DC'')))) StatementLine_tail"

definition PATTERN_StatementLine :: regex where
  "PATTERN_StatementLine =
     Seq Bol (Seq (Grp 1 (times digit 2 2))
       (Seq (Grp 2 (times digit 2 2))
       (Seq (Grp 3 (times digit 2 2))
       (Seq (Opt (Grp 4 (Seq (Grp 5 (times digit 2 2)) (Grp 6 (times digit 2 2)))))
            StatementLine_rest))))"

text \<open>The message block, a global pattern:
  \<^verbatim>\<open>(^-\})|(\{(\d):(.*?)($|\}(?=(\{\d:)|$)))\<close>.
  The part after the block number and its colon is \<open>MessageBlock_content\<close>.\<close>

definition MessageBlock_content :: regex where
  "MessageBlock_content =
     Seq (Grp 4 (Rep dot 0 None False))
         (Grp 5 (Alt Eol
            (Seq (Chr (CHR ''}''))
                 (Ahead (Alt (Grp 6 (Seq (Chr (CHR ''{'')) (Seq (Cls digit) (Chr (CHR '':'')))))
                             Eol)))))"

definition PATTERN_MessageBlock :: regex where
  "PATTERN_MessageBlock =
     Alt (Grp 1 (Seq Bol (Seq (Chr (CHR ''-'')) (Chr (CHR ''}'')))))
         (Grp 2 (Seq (Chr (CHR ''{''))
                  (Seq (Grp 3 (Cls digit)) (Seq (Chr (CHR '':'')) MessageBlock_content))))"

fun PATTERN :: "tag_class \<Rightarrow> regex" where
  "PATTERN TagTransactionReferenceNumber = PATTERN_upto 16"
| "PATTERN TagRelatedReference = PATTERN_upto 16"
| "PATTERN TagAccountIdentification = PATTERN_upto 35"
| "PATTERN TagStatementNumber = PATTERN_StatementNumber"
| "PATTERN TagDebitAndCreditFloorLimit = PATTERN_FloorLimit"
| "PATTERN TagDateTimeIndication = PATTERN_DateTimeIndication"
| "PATTERN TagNonSwift = PATTERN_NonSwift"
| "PATTERN TagOpeningBalance = PATTERN_Balance"
| "PATTERN TagClosingBalance = PATTERN_Balance"
| "PATTERN TagNumberAndSumOfEntriesD = PATTERN_NumberAndSumOfEntries"
| "PATTERN TagNumberAndSumOfEntriesC = PATTERN_NumberAndSumOfEntries"
| "PATTERN TagStatementLine = PATTERN_StatementLine"
| "PATTERN TagTransactionDetails = PATTERN_TransactionDetails"
| "PATTERN TagClosingAvailableBalance = PATTERN_Balance"
| "PATTERN TagForwardAvailableBalance = PATTERN_Balance"
| "PATTERN TagMessageBlock = PATTERN_MessageBlock"
| "PATTERN TagDateTimeIndication13 = PATTERN_DateTimeIndication13"


subsection \<open>Where a match ends\<close>

text \<open>A successful match hands its continuation a state further on in the same input,
  and changes no capture but those of its own groups.  The message block's pattern
  never matches the empty string, so that the repeated search below comes to an end.\<close>

primrec grps :: "regex \<Rightarrow> nat set" where
  "grps Eps = {}"
| "grps Bol = {}"
| "grps Eol = {}"
| "grps (Cls cc) = {}"
| "grps (Rep cc lo hi g) = {}"
| "grps (Seq r1 r2) = grps r1 \<union> grps r2"
| "grps (Alt r1 r2) = grps r1 \<union> grps r2"
| "grps (Opt r) = grps r"
| "grps (Grp n r) = insert n (grps r)"
| "grps (Ahead r) = grps r"

definition extends :: "mstate \<Rightarrow> mstate \<Rightarrow> bool" where
  "extends s s' = (\<exists>n. n \<le> length (rest s) \<and> pos s' = pos s + n \<and> rest s' = drop n (rest s))"

lemma extends_refl: "extends s s"
  by (auto simp: extends_def intro: exI[of _ 0])

lemma extends_trans: "extends a b \<Longrightarrow> extends b c \<Longrightarrow> extends a c"
  unfolding extends_def
  apply clarify
  subgoal for n m
    by (rule exI[of _ "n + m"]) (auto simp: add.commute)
  done

lemma extends_advance: "rest s = c # cs \<Longrightarrow> extends s (advance s)"
  unfolding extends_def advance_def
  by (rule exI[of _ 1]) (auto simp: drop_Suc)

lemma rep_greedy_sound:
  "rep_greedy cc lo hi k cs s = Some t \<Longrightarrow> rest s = cs \<Longrightarrow>
   \<exists>s'. k s' = Some t \<and> extends s s' \<and> caps s' = caps s"
proof (induction cs arbitrary: lo hi s)
  case Nil
  then show ?case by (auto split: if_splits intro: extends_refl)
next
  case (Cons c cs)
  show ?case
  proof (cases "rep_greedy cc (lo - 1) (map_option (\<lambda>h. h - 1) hi) k cs (advance s)")
    case None
    with Cons.prems show ?thesis by (auto split: if_splits intro: extends_refl)
  next
    case (Some r)
    show ?thesis
    proof (cases "hi \<noteq> Some 0 \<and> in_class cc c")
      case True
      with Some Cons.prems have r: "r = t" by simp
      have "rest (advance s) = cs" using Cons.prems by (simp add: advance_def)
      from Cons.IH[OF Some[unfolded r] this] obtain s' where
        "k s' = Some t" "extends (advance s) s'" "caps s' = caps (advance s)" by blast
      moreover have "extends s (advance s)" using Cons.prems by (auto intro: extends_advance)
      ultimately show ?thesis by (auto intro: extends_trans simp: advance_def)
    next
      case False
      with Cons.prems show ?thesis by (auto split: if_splits intro: extends_refl)
    qed
  qed
qed

lemma rep_lazy_sound:
  "rep_lazy cc lo hi k cs s = Some t \<Longrightarrow> rest s = cs \<Longrightarrow>
   \<exists>s'. k s' = Some t \<and> extends s s' \<and> caps s' = caps s"
proof (induction cs arbitrary: lo hi s)
  case Nil
  then show ?case by (auto split: if_splits intro: extends_refl)
next
  case (Cons c cs)
  show ?case
  proof (cases "(if lo = 0 then k s else None)")
    case (Some r)
    with Cons.prems show ?thesis by (auto split: if_splits intro: extends_refl)
  next
    case None
    with Cons.prems have ok: "hi \<noteq> Some 0 \<and> in_class cc c"
      and rec: "rep_lazy cc (lo - 1) (map_option (\<lambda>h. h - 1) hi) k cs (advance s) = Some t"
      by (auto split: if_splits)
    have "rest (advance s) = cs" using Cons.prems by (simp add: advance_def)
    from Cons.IH[OF rec this] obtain s' where
      "k s' = Some t" "extends (advance s) s'" "caps s' = caps (advance s)" by blast
    moreover have "extends s (advance s)" using Cons.prems by (auto intro: extends_advance)
    ultimately show ?thesis by (auto intro: extends_trans simp: advance_def)
  qed
qed

lemma rmatch_sound:
  "rmatch r k s = Some t \<Longrightarrow>
   \<exists>s'. k s' = Some t \<and> extends s s' \<and> (\<forall>n. n \<notin> grps r \<longrightarrow> caps s' n = caps s n)"
proof (induction r arbitrary: k s t)
  case Eps
  then show ?case by (auto intro: extends_refl)
next
  case Bol
  then show ?case by (auto split: if_splits intro: extends_refl)
next
  case Eol
  then show ?case by (auto split: if_splits intro: extends_refl)
next
  case (Cls cc)
  then show ?case
    by (auto split: list.splits if_splits intro!: exI[of _ "advance s"] extends_advance simp: advance_def)
next
  case (Rep cc lo hi g)
  then show ?case
    by (cases g) (auto dest!: rep_greedy_sound rep_lazy_sound)
next
  case (Seq r1 r2)
  from Seq.prems have "rmatch r1 (rmatch r2 k) s = Some t" by simp
  from Seq.IH(1)[OF this] obtain s1 where
    s1: "rmatch r2 k s1 = Some t" "extends s s1" "\<forall>n. n \<notin> grps r1 \<longrightarrow> caps s1 n = caps s n" by blast
  from Seq.IH(2)[OF s1(1)] obtain s2 where
    s2: "k s2 = Some t" "extends s1 s2" "\<forall>n. n \<notin> grps r2 \<longrightarrow> caps s2 n = caps s1 n" by blast
  from s1 s2 show ?case by (auto intro: extends_trans)
next
  case (Alt r1 r2)
  then show ?case by (fastforce split: option.splits)
next
  case (Opt r)
  then show ?case by (fastforce split: option.splits intro: extends_refl)
next
  case (Grp n r)
  from Grp.prems have "rmatch r (\<lambda>s'. k (set_cap n (take (pos s' - pos s) (rest s)) s')) s = Some t"
    by simp
  from Grp.IH[OF this] obtain s' where
    s': "k (set_cap n (take (pos s' - pos s) (rest s)) s') = Some t" "extends s s'"
        "\<forall>m. m \<notin> grps r \<longrightarrow> caps s' m = caps s m" by blast
  show ?case
    apply (rule exI[of _ "set_cap n (take (pos s' - pos s) (rest s)) s'"])
    using s' by (auto simp: set_cap_def extends_def)
next
  case (Ahead r)
  from Ahead.prems obtain s1 where
    s1: "rmatch r Some s = Some s1" "k (MState (pos s) (rest s) (caps s1)) = Some t"
    by (auto split: option.splits)
  from Ahead.IH[OF s1(1)] have "\<forall>n. n \<notin> grps r \<longrightarrow> caps s1 n = caps s n" by auto
  with s1(2) show ?case
    by (intro exI[of _ "MState (pos s) (rest s) (caps s1)"]) (auto simp: extends_def intro: exI[of _ 0])
qed

lemma scan_sound:
  "scan r i cs = Some m \<Longrightarrow>
   \<exists>j s. j \<le> length cs \<and>
     rmatch (Grp 0 r) Some (MState (i + j) (drop j cs) (\<lambda>n. None)) = Some s \<and>
     m = Match (pos s) (caps s)"
proof (induction cs arbitrary: i)
  case Nil
  then show ?case by (auto split: option.splits)
next
  case (Cons c cs)
  show ?case
  proof (cases "rmatch (Grp 0 r) Some (MState i (c # cs) (\<lambda>n. None))")
    case (Some s)
    with Cons.prems show ?thesis
      by (intro exI[of _ 0] exI[of _ s]) auto
  next
    case None
    with Cons.prems have "scan r (Suc i) cs = Some m" by simp
    from Cons.IH[OF this] obtain j s where
      "j \<le> length cs" "rmatch (Grp 0 r) Some (MState (Suc i + j) (drop j cs) (\<lambda>n. None)) = Some s"
      "m = Match (pos s) (caps s)" by blast
    then show ?thesis
      by (intro exI[of _ "Suc j"] exI[of _ s]) auto
  qed
qed

lemma rmatch_Chr:
  "rmatch (Chr c) k s = (case rest s of [] \<Rightarrow> None | d # ds \<Rightarrow> if d = c then k (advance s) else None)"
  by (simp add: Chr_def in_class_def split: list.splits)

lemma MessageBlock_progress:
  assumes "rmatch (Grp 0 PATTERN_MessageBlock) Some s = Some t"
  shows "pos s < pos t \<and> pos t \<le> pos s + length (rest s)"
proof -
  let ?k = "\<lambda>s'. Some (set_cap 0 (take (pos s' - pos s) (rest s)) s')"
  from assms obtain s' where s': "?k s' = Some t" "extends s s'"
    by (auto dest!: rmatch_sound)
  then have upper: "pos t \<le> pos s + length (rest s)"
    by (auto simp: extends_def set_cap_def)
  from assms have
    "rmatch (Grp 1 (Seq Bol (Seq (Chr (CHR ''-'')) (Chr (CHR ''}''))))) ?k s = Some t \<or>
     rmatch (Grp 2 (Seq (Chr (CHR ''{''))
        (Seq (Grp 3 (Cls digit)) (Seq (Chr (CHR '':'')) MessageBlock_content)))) ?k s = Some t"
    by (auto simp: PATTERN_MessageBlock_def split: option.splits)
  then have "pos s < pos t"
  proof
    assume "rmatch (Grp 1 (Seq Bol (Seq (Chr (CHR ''-'')) (Chr (CHR ''}''))))) ?k s = Some t"
    then show ?thesis
      by (auto simp: rmatch_Chr advance_def set_cap_def split: if_splits list.splits)
  next
    assume "rmatch (Grp 2 (Seq (Chr (CHR ''{''))
        (Seq (Grp 3 (Cls digit)) (Seq (Chr (CHR '':'')) MessageBlock_content)))) ?k s = Some t"
    then obtain c cs where c: "rest s = c # cs" and
      "rmatch (Seq (Grp 3 (Cls digit)) (Seq (Chr (CHR '':'')) MessageBlock_content))
         (\<lambda>s'. ?k (set_cap 2 (take (pos s' - pos s) (rest s)) s')) (advance s) = Some t"
      by (auto simp: rmatch_Chr split: list.splits if_splits)
    from rmatch_sound[OF this(2)] obtain s2 where
      "?k (set_cap 2 (take (pos s2 - pos s) (rest s)) s2) = Some t" "extends (advance s) s2"
      by blast
    then show ?thesis by (auto simp: extends_def set_cap_def advance_def)
  qed
  with upper show ?thesis by simp
qed

lemma exec_MessageBlock_progress:
  assumes "exec PATTERN_MessageBlock str i = Some m"
  shows "i < end_index m \<and> end_index m \<le> length str"
proof -
  from assms have i: "i \<le> length str" and "scan PATTERN_MessageBlock i (drop i str) = Some m"
    by (auto simp: exec_def split: if_splits)
  from scan_sound[OF this(2)] obtain j s where
    j: "j \<le> length (drop i str)"
    and s: "rmatch (Grp 0 PATTERN_MessageBlock) Some (MState (i + j) (drop j (drop i str)) (\<lambda>n. None)) = Some s"
    and m: "m = Match (pos s) (caps s)" by blast
  from MessageBlock_progress[OF s] i j m show ?thesis by auto
qed


subsection \<open>Field extraction\<close>

text \<open>A group that took no part in the match is \<open>undefined\<close>.\<close>

definition js_string :: "string option \<Rightarrow> string" where
  "js_string g = (case g of None \<Rightarrow> ''undefined'' | Some v \<Rightarrow> v)"

definition group_value :: "string option \<Rightarrow> fvalue" where
  "group_value g = (case g of None \<Rightarrow> VUndefined | Some v \<Rightarrow> VString v)"

text \<open>\<^verbatim>\<open>match[i] || ''\<close>\<close>

definition or_empty :: "string option \<Rightarrow> fvalue" where
  "or_empty g = (case g of None \<Rightarrow> VString '''' | Some v \<Rightarrow> VString v)"

definition date_of_groups :: "string option \<Rightarrow> string option \<Rightarrow> string option \<Rightarrow> fvalue" where
  "date_of_groups y m d = VDate (BankDate_parse (js_string y) (js_string m) (js_string d))"

text \<open>\<open>helperModels.Amount.parse(match[i], match[j])\<close>; the groups are not optional in
  the patterns, and a missing one would be a \<open>TypeError\<close>.\<close>

definition amount_of_groups :: "string option \<Rightarrow> string option \<Rightarrow> error + bignumber" where
  "amount_of_groups mark amount =
     (case mark of
        None \<Rightarrow> Inl TypeError
      | Some dc \<Rightarrow> (case amount of None \<Rightarrow> Inl TypeError | Some a \<Rightarrow> BankAmount_parse dc a))"

text \<open>\<open>BigNumber(match[i])\<close>\<close>

definition bignumber_of_group :: "string option \<Rightarrow> fvalue" where
  "bignumber_of_group g = VAmount (case g of None \<Rightarrow> BigNaN | Some v \<Rightarrow> BigNumber v)"

text \<open>The loop of \<open>TagMessageBlock._extractFields\<close>: \<open>_nextMatch\<close> searches on from the
  pattern's \<open>lastIndex\<close>, the end of the match before.\<close>

function mb_loop :: "string \<Rightarrow> rmatch_result option \<Rightarrow> (string \<rightharpoonup> fvalue) \<Rightarrow> (string \<rightharpoonup> fvalue)" where
  "mb_loop str None fields = fields"
| "mb_loop str (Some m) fields =
     mb_loop str (exec PATTERN_MessageBlock str (end_index m))
       (if groups m 0 = Some ''-}'' then fields(''EOB'' \<mapsto> VString '''')
        else fields((case groups m 3 of None \<Rightarrow> ''undefined'' | Some k \<Rightarrow> k) \<mapsto>
               (case groups m 4 of None \<Rightarrow> VUndefined | Some v \<Rightarrow> VString v)))"
  by pat_completeness auto
termination
proof (relation "measure (\<lambda>(str, m, fields). case m of None \<Rightarrow> 0 | Some m \<Rightarrow> Suc (length str - end_index m))")
  show "wf (measure (\<lambda>(str, m, fields). case m of None \<Rightarrow> 0 | Some m \<Rightarrow> Suc (length str - end_index m)))"
    by simp
next
  fix str :: string and m :: rmatch_result and fields :: "string \<rightharpoonup> fvalue"
  show "((str, exec PATTERN_MessageBlock str (end_index m),
         if groups m 0 = Some ''-}'' then fields(''EOB'' \<mapsto> VString '''')
         else fields((case groups m 3 of None \<Rightarrow> ''undefined'' | Some k \<Rightarrow> k) \<mapsto>
               (case groups m 4 of None \<Rightarrow> VUndefined | Some v \<Rightarrow> VString v))),
        (str, Some m, fields))
       \<in> measure (\<lambda>(str, m, fields). case m of None \<Rightarrow> 0 | Some m \<Rightarrow> Suc (length str - end_index m))"
    using exec_MessageBlock_progress[of str "end_index m"]
    by (auto split: option.splits)
qed

text \<open>A match of the message block's pattern by its second alternative, a block
  \<open>{digit:content\<close>, and a field record whose keys are \<open>EOB\<close> and single digits and whose
  values are strings.\<close>

definition block_match :: "rmatch_result \<Rightarrow> bool" where
  "block_match m =
     (groups m 0 \<noteq> Some ''-}'' \<and>
      (\<exists>d body. is_digit d \<and> groups m 3 = Some [d] \<and> groups m 4 = Some body))"

definition string_fields :: "(string \<rightharpoonup> fvalue) \<Rightarrow> bool" where
  "string_fields f =
     (\<forall>k v. f k = Some v \<longrightarrow> (\<exists>x. v = VString x) \<and> (k = ''EOB'' \<or> (\<exists>d. is_digit d \<and> k = [d])))"

definition Balance_extractFields :: "rmatch_result \<Rightarrow> error + (string \<rightharpoonup> fvalue)" where
  "Balance_extractFields m =
     (case amount_of_groups (groups m 1) (groups m 6) of
        Inl e \<Rightarrow> Inl e
      | Inr a \<Rightarrow>
          Inr [''date'' \<mapsto> date_of_groups (groups m 2) (groups m 3) (groups m 4),
               ''currency'' \<mapsto> group_value (groups m 5),
               ''amount'' \<mapsto> VAmount a])"

definition NumberAndSumOfEntries_extractFields :: "rmatch_result \<Rightarrow> (string \<rightharpoonup> fvalue)" where
  "NumberAndSumOfEntries_extractFields m =
     [''number'' \<mapsto> group_value (groups m 1),
      ''currency'' \<mapsto> group_value (groups m 2),
      ''amount'' \<mapsto> bignumber_of_group (groups m 3)]"

definition StatementLine_extractFields :: "rmatch_result \<Rightarrow> error + (string \<rightharpoonup> fvalue)" where
  "StatementLine_extractFields m =
     (case amount_of_groups (groups m 7) (groups m 9) of
        Inl e \<Rightarrow> Inl e
      | Inr a \<Rightarrow>
          Inr [''date'' \<mapsto> date_of_groups (groups m 1) (groups m 2) (groups m 3),
               ''entryDate'' \<mapsto>
                 (case groups m 4 of
                    None \<Rightarrow> VString ''''
                  | Some e \<Rightarrow>
                      if e = '''' then VString ''''
                      else date_of_groups (groups m 1) (groups m 5) (groups m 6)),
               ''fundsCode'' \<mapsto> or_empty (groups m 8),
               ''amount'' \<mapsto> VAmount a,
               ''isReversal'' \<mapsto>
                 VBool (case groups m 7 of Some (c # cs) \<Rightarrow> c = CHR ''R'' | _ \<Rightarrow> False),
               ''transactionType'' \<mapsto> group_value (groups m 10),
               ''reference'' \<mapsto> group_value (groups m 11),
               ''bankReference'' \<mapsto> or_empty (groups m 13),
               ''extraDetails'' \<mapsto> or_empty (groups m 15),
               ''creditDebitIndicator'' \<mapsto> group_value (groups m 7)])"

definition MessageBlock_extractFields ::
  "string \<Rightarrow> rmatch_result \<Rightarrow> (string \<rightharpoonup> fvalue) \<times> bool option" where
  "MessageBlock_extractFields str m =
     (let fields = mb_loop str (Some m) Map.empty
      in (fields, Some (fields ''1'' \<noteq> None \<and> fields ''1'' \<noteq> Some VUndefined)))"

text \<open>\<open>_extractFields\<close> of each class: the field record, and \<open>isStarting\<close> where the class
  sets it.\<close>

fun extractFields ::
  "tag_class \<Rightarrow> string \<Rightarrow> rmatch_result \<Rightarrow> error + ((string \<rightharpoonup> fvalue) \<times> bool option)"
where
  "extractFields TagTransactionReferenceNumber str m =
     Inr ([''transactionReference'' \<mapsto> group_value (groups m 1)], None)"
| "extractFields TagRelatedReference str m =
     Inr ([''relatedReference'' \<mapsto> group_value (groups m 1)], None)"
| "extractFields TagAccountIdentification str m =
     Inr ([''accountIdentification'' \<mapsto> group_value (groups m 1)], None)"
| "extractFields TagStatementNumber str m =
     Inr ([''statementNumber'' \<mapsto> group_value (groups m 1),
           ''sequenceNumber'' \<mapsto> or_empty (groups m 3),
           ''sectionNumber'' \<mapsto> or_empty (groups m 5)], None)"
| "extractFields TagDebitAndCreditFloorLimit str m =
     Inr ([''currency'' \<mapsto> group_value (groups m 1),
           ''dcMark'' \<mapsto> or_empty (groups m 2),
           ''amount'' \<mapsto> bignumber_of_group (groups m 3)], None)"
| "extractFields TagDateTimeIndication str m =
     Inr ([''dateTimestamp'' \<mapsto>
             forOffsetDateTime (js_string (groups m 1)) (js_string (groups m 2))
               (js_string (groups m 3))], None)"
| "extractFields TagDateTimeIndication13 str m =
     Inr ([''dateTimestamp'' \<mapsto>
             forOffsetDateTime (js_string (groups m 1)) (js_string (groups m 2)) ''0000''],
          None)"
| "extractFields TagNonSwift str m =
     Inr ([''nonSwift'' \<mapsto> group_value (groups m 1)], None)"
| "extractFields TagOpeningBalance str m =
     map_sum id (\<lambda>f. (f, None)) (Balance_extractFields m)"
| "extractFields TagClosingBalance str m =
     map_sum id (\<lambda>f. (f, None)) (Balance_extractFields m)"
| "extractFields TagClosingAvailableBalance str m =
     map_sum id (\<lambda>f. (f, None)) (Balance_extractFields m)"
| "extractFields TagForwardAvailableBalance str m =
     map_sum id (\<lambda>f. (f, None)) (Balance_extractFields m)"
| "extractFields TagNumberAndSumOfEntriesD str m =
     Inr (NumberAndSumOfEntries_extractFields m, None)"
| "extractFields TagNumberAndSumOfEntriesC str m =
     Inr (NumberAndSumOfEntries_extractFields m, None)"
| "extractFields TagStatementLine str m =
     map_sum id (\<lambda>f. (f, None)) (StatementLine_extractFields m)"
| "extractFields TagTransactionDetails str m =
     Inr ([''transactionDetails'' \<mapsto> group_value (groups m 1)], None)"
| "extractFields TagMessageBlock str m = Inr (MessageBlock_extractFields str m)"

subsection \<open>Tag instances and the factory\<close>

datatype tag =
  Tag (tag_id: key) (tag_data: string) (fields: "string \<rightharpoonup> fvalue")
    (isStarting: "bool option")

text \<open>The constructor of \<open>Tag\<close>, with \<open>_parse\<close>: no instance comes out of a failure.\<close>

definition new_Tag :: "tag_class \<Rightarrow> string \<Rightarrow> error + tag" where
  "new_Tag c str =
     (case exec (PATTERN c) str 0 of
        None \<Rightarrow> Inl (CannotParseTag (ID c) str)
      | Some m \<Rightarrow>
          (case extractFields c str m of
             Inl e \<Rightarrow> Inl e
           | Inr (f, st) \<Rightarrow>
               Inr (Tag (ID c) str f st)))"

definition tag_classes :: "tag_class list" where
  "tag_classes =
     [TagTransactionReferenceNumber, TagRelatedReference, TagAccountIdentification,
      TagStatementNumber, TagDebitAndCreditFloorLimit, TagDateTimeIndication, TagNonSwift,
      TagOpeningBalance, TagClosingBalance, TagNumberAndSumOfEntriesD,
      TagNumberAndSumOfEntriesC, TagStatementLine, TagTransactionDetails,
      TagClosingAvailableBalance, TagForwardAvailableBalance, TagMessageBlock,
      TagDateTimeIndication13]"

definition tagMap :: "key \<rightharpoonup> tag_class" where
  "tagMap = foldl (\<lambda>map i. map(ID i \<mapsto> i)) Map.empty tag_classes"

text \<open>The identifier given to \<open>createTag\<close> is a Number (an integer) or a string; \<open>tagId\<close>
  is a Number (an integer or NaN) or a string.  The integers of the language are
  exact up to \<open>2^53\<close>: an identifier is safe when it is such a number, a string that is
  not numeric, or a string from which \<open>parseInt\<close> reads such a number (or none).  On the
  safe identifiers the definitions below are the language's; the statements about the
  composite key are made for them.\<close>

datatype id_arg = IdNumber int | IdString string



datatype tagid = TagNum "int option" | TagStr string

definition tagId_of :: "id_arg \<Rightarrow> tagid" where
  "tagId_of ident =
     (case ident of
        IdNumber n \<Rightarrow> TagNum (parseInt (int_toString n))
      | IdString v \<Rightarrow> if isNaN v then TagStr v else TagNum (parseInt v))"

definition tagId_toString :: "tagid \<Rightarrow> string" where
  "tagId_toString t = (case t of TagNum n \<Rightarrow> parseInt_toString n | TagStr v \<Rightarrow> v)"

definition fullTagId_of :: "id_arg \<Rightarrow> string \<Rightarrow> string" where
  "fullTagId_of ident subId = tagId_toString (tagId_of ident) @ subId"

text \<open>\<open>Map.prototype.get\<close> at \<open>tagId\<close>: a number is looked up among the number keys, a
  string among the string keys, and NaN is no key of the map.\<close>

definition tagId_key :: "tagid \<Rightarrow> key option" where
  "tagId_key t =
     (case t of
        TagNum None \<Rightarrow> None
      | TagNum (Some n) \<Rightarrow> Some (KNum n)
      | TagStr v \<Rightarrow> Some (KStr v))"

definition tagMap_get :: "tagid \<Rightarrow> tag_class option" where
  "tagMap_get t = (case tagId_key t of None \<Rightarrow> None | Some k \<Rightarrow> tagMap k)"

definition tagClass_of :: "id_arg \<Rightarrow> string \<Rightarrow> tag_class option" where
  "tagClass_of ident subId =
     (case tagMap (KStr (fullTagId_of ident subId)) of
        Some c \<Rightarrow> Some c
      | None \<Rightarrow> tagMap_get (tagId_of ident))"

definition createTag :: "id_arg \<Rightarrow> string \<Rightarrow> string \<Rightarrow> error + tag" where
  "createTag ident subId str =
     (case tagClass_of ident subId of
        None \<Rightarrow> Inl (UnknownTag (fullTagId_of ident subId))
      | Some c \<Rightarrow> new_Tag c str)"

text \<open>A statement line has an entry date when the four characters after its date of six
  are digits.\<close>

definition has_entry_date :: "string \<Rightarrow> bool" where
  "has_entry_date str = (10 \<le> length str \<and> list_all is_digit (take 4 (drop 6 str)))"

text \<open>The groups that take part in every match of a pattern: those outside of an
  optional part, and of both sides of an alternative.\<close>

primrec sure :: "regex \<Rightarrow> nat set" where
  "sure Eps = {}"
| "sure Bol = {}"
| "sure Eol = {}"
| "sure (Cls cc) = {}"
| "sure (Rep cc lo hi g) = {}"
| "sure (Seq r1 r2) = sure r1 \<union> sure r2"
| "sure (Alt r1 r2) = sure r1 \<inter> sure r2"
| "sure (Opt r) = {}"
| "sure (Grp n r) = insert n (sure r)"
| "sure (Ahead r) = sure r"

text \<open>The errors of a field value, which are those of \<open>BankAmount.parse\<close>.\<close>

fun field_value_error :: "error \<Rightarrow> bool" where
  "field_value_error (NotReversalOrExpectedMark dcmark) = True"
| "field_value_error (WrongDebitCreditMark dcmark) = True"
| "field_value_error (AmountCannotBeParsed amountStr) = True"
| "field_value_error (PositiveAmountExpected amountStr) = True"
| "field_value_error e = False"

text \<open>The fields of each rule as the specification's table lists them; the message
  block has no fixed list, its fields being the blocks found.  A field record is
  complete when it has exactly the listed fields and none of them is \<open>undefined\<close>; for
  the message block, when every field is a string under the key \<open>EOB\<close> or a block number.\<close>

fun spec_fields :: "tag_class \<Rightarrow> string set option" where
  "spec_fields TagTransactionReferenceNumber = Some {''transactionReference''}"
| "spec_fields TagRelatedReference = Some {''relatedReference''}"
| "spec_fields TagAccountIdentification = Some {''accountIdentification''}"
| "spec_fields TagStatementNumber =
     Some {''statementNumber'', ''sequenceNumber'', ''sectionNumber''}"
| "spec_fields TagDebitAndCreditFloorLimit = Some {''currency'', ''dcMark'', ''amount''}"
| "spec_fields TagDateTimeIndication = Some {''dateTimestamp''}"
| "spec_fields TagDateTimeIndication13 = Some {''dateTimestamp''}"
| "spec_fields TagNonSwift = Some {''nonSwift''}"
| "spec_fields TagOpeningBalance = Some {''date'', ''currency'', ''amount''}"
| "spec_fields TagClosingBalance = Some {''date'', ''currency'', ''amount''}"
| "spec_fields TagClosingAvailableBalance = Some {''date'', ''currency'', ''amount''}"
| "spec_fields TagForwardAvailableBalance = Some {''date'', ''currency'', ''amount''}"
| "spec_fields TagNumberAndSumOfEntriesD = Some {''number'', ''currency'', ''amount''}"
| "spec_fields TagNumberAndSumOfEntriesC = Some {''number'', ''currency'', ''amount''}"
| "spec_fields TagStatementLine =
     Some {''date'', ''entryDate'', ''fundsCode'', ''amount'', ''isReversal'',
           ''transactionType'', ''reference'', ''bankReference'', ''extraDetails'',
           ''creditDebitIndicator''}"
| "spec_fields TagTransactionDetails = Some {''transactionDetails''}"
| "spec_fields TagMessageBlock = None"

definition complete_record :: "tag_class \<Rightarrow> (string \<rightharpoonup> fvalue) \<Rightarrow> bool" where
  "complete_record c f =
     (case spec_fields c of
        None \<Rightarrow> string_fields f
      | Some names \<Rightarrow> dom f = names \<and> VUndefined \<notin> ran f)"

text \<open>The blocks of a text, read off the text itself.  A block opens with a brace, a
  digit and a colon.  Its content is the shortest run of characters other than line
  terminators after which the text ends or has a closing brace that is followed by the
  end or by the opening of a block; the block ends after that brace.  The text is read
  from left to right: where a block starts it is taken and the reading goes on after
  it, and otherwise the reading goes on at the next character.\<close>

fun opens_block :: "string \<Rightarrow> bool" where
  "opens_block (a # d # b # cs) = (a = CHR ''{'' \<and> is_digit d \<and> b = CHR '':'')"
| "opens_block cs = False"

fun block_closes :: "string \<Rightarrow> bool" where
  "block_closes [] = True"
| "block_closes (c # cs) = (c = CHR ''}'' \<and> (cs = [] \<or> opens_block cs))"

fun block_content :: "string \<Rightarrow> string option" where
  "block_content [] = Some []"
| "block_content (c # cs) =
     (if block_closes (c # cs) then Some []
      else if c = CHR 0x0A \<or> c = CHR 0x0D then None
      else map_option ((#) c) (block_content cs))"

text \<open>The block that starts a text: its number, its content and its length.\<close>

fun block_at :: "string \<Rightarrow> (char \<times> string \<times> nat) option" where
  "block_at (a # d # b # cs) =
     (if a = CHR ''{'' \<and> is_digit d \<and> b = CHR '':''
      then map_option
             (\<lambda>body. (d, body, 3 + length body + (if length body = length cs then 0 else 1)))
             (block_content cs)
      else None)"
| "block_at cs = None"

lemma block_at_length:
  assumes "block_at cs = Some (d, body, n)"
  shows "0 < n"
  using assms by (cases cs rule: block_at.cases) (auto split: if_splits)

function blocks_of :: "string \<Rightarrow> (char \<times> string) list" where
  "blocks_of [] = []"
| "blocks_of (c # cs) =
     (case block_at (c # cs) of
        None \<Rightarrow> blocks_of cs
      | Some (d, body, n) \<Rightarrow> (d, body) # blocks_of (drop n (c # cs)))"
  by pat_completeness auto
termination
proof (relation "measure length")
  show "wf (measure length)" by simp
next
  fix c :: char and cs :: string
  show "(cs, c # cs) \<in> measure length" by simp
next
  fix c d :: char and cs body :: string and x :: "char \<times> string \<times> nat" and y :: "string \<times> nat"
    and n :: nat
  assume "block_at (c # cs) = Some x" and "(d, y) = x" and "(body, n) = y"
  then have "block_at (c # cs) = Some (d, body, n)" by simp
  from block_at_length[OF this] show "(drop n (c # cs), c # cs) \<in> measure length" by simp
qed

text \<open>The blocks of a message block's text, after the terminator \<open>-}\<close> where the text
  starts with it, and the record of its fields: \<open>EOB\<close> for the terminator, and each
  block's content under its number, in the order of the text.\<close>

definition mb_blocks :: "string \<Rightarrow> (char \<times> string) list" where
  "mb_blocks str = blocks_of (if take 2 str = ''-}'' then drop 2 str else str)"

fun store_block :: "(string \<rightharpoonup> fvalue) \<Rightarrow> char \<times> string \<Rightarrow> (string \<rightharpoonup> fvalue)" where
  "store_block f (d, body) = f([d] \<mapsto> VString body)"

definition mb_fields :: "string \<Rightarrow> (string \<rightharpoonup> fvalue)" where
  "mb_fields str =
     foldl store_block (if take 2 str = ''-}'' then [''EOB'' \<mapsto> VString []] else Map.empty)
       (mb_blocks str)"


section \<open>Properties of the amount codec\<close>

lemma round_half_up: "round_magnitude ROUND_HALF_UP neg q = \<lfloor>q + 1 / 2\<rfloor>"
proof -
  have "\<lfloor>q + 1 / 2\<rfloor> = (if q - of_int \<lfloor>q\<rfloor> < 1 / 2 then \<lfloor>q\<rfloor> else \<lceil>q\<rceil>)"
  proof (cases "q - of_int \<lfloor>q\<rfloor> < 1 / 2")
    case True
    then have "\<lfloor>q + 1 / 2\<rfloor> = \<lfloor>q\<rfloor>"
      by (intro floor_unique) (auto simp: algebra_simps intro: order_trans[OF of_int_floor_le])
    with True show ?thesis by simp
  next
    case False
    then have "\<lfloor>q + 1 / 2\<rfloor> = \<lfloor>q\<rfloor> + 1"
      by (intro floor_unique) (auto simp: algebra_simps, linarith?)
    moreover from False have "of_int \<lfloor>q\<rfloor> \<noteq> q" by auto
    then have "\<lceil>q\<rceil> = \<lfloor>q\<rfloor> + 1" by (metis ceiling_altdef)
    ultimately show ?thesis using False by simp
  qed
  then show ?thesis by (simp add: round_magnitude_def Let_def)
qed

lemma integerValue_Big: "integerValue (Big neg q) = Big neg (of_int \<lfloor>q + 1 / 2\<rfloor>)"
  by (simp add: integerValue_def ROUNDING_MODE_def round_half_up)

lemma floor_int_plus_half: "\<lfloor>(of_int m :: rat) + 1 / 2\<rfloor> = m"
  by (rule floor_unique) auto

lemma dividedBy_100: "dividedBy (Big neg (of_int n)) (BigNumber_int 100) = Big neg (of_int n / 100)"
proof -
  have "(of_int n :: rat) / 100 * 10 ^ 20 = of_int (n * 10 ^ 18)" by simp
  then have "\<lfloor>(of_int n :: rat) / 100 * 10 ^ 20 + 1 / 2\<rfloor> = n * 10 ^ 18"
    by (simp only: floor_int_plus_half)
  then show ?thesis
    by (simp add: dividedBy_def BigNumber_int_def ROUNDING_MODE_def DECIMAL_PLACES_def round_half_up)
qed

lemma multipliedBy_int [simp]:
  "multipliedBy (Big a p) (BigNumber_int n) = Big (a \<noteq> (n < 0)) (p * of_int \<bar>n\<bar>)"
  "multipliedBy (BigInfinity a) (BigNumber_int n) =
     (if n = 0 then BigNaN else BigInfinity (a \<noteq> (n < 0)))"
  by (simp_all add: multipliedBy_def BigNumber_int_def)

lemma integerValue_Infinity [simp]: "integerValue (BigInfinity a) = BigInfinity a"
  by (simp add: integerValue_def)

lemma dividedBy_Infinity_100 [simp]:
  "dividedBy (BigInfinity a) (BigNumber_int 100) = BigInfinity a"
  by (simp add: dividedBy_def BigNumber_int_def)

lemma BankAmount_parse_C: "BankAmount_parse ''C'' amountStr = amount_result amountStr False"
  by (cases "BigNumber (replace_first (CHR '','') (CHR ''.'') amountStr)")
     (simp_all add: BankAmount_parse_def amount_result_def BigNumber_isNaN_def isNegative_def
        integerValue_Big dividedBy_100)

lemma BankAmount_parse_D: "BankAmount_parse ''D'' amountStr = amount_result amountStr True"
  by (cases "BigNumber (replace_first (CHR '','') (CHR ''.'') amountStr)")
     (simp_all add: BankAmount_parse_def amount_result_def BigNumber_isNaN_def isNegative_def
        integerValue_Big dividedBy_100)

lemma BankAmount_parse_EC: "BankAmount_parse ''EC'' amountStr = amount_result amountStr False"
  by (cases "BigNumber (replace_first (CHR '','') (CHR ''.'') amountStr)")
     (simp_all add: BankAmount_parse_def amount_result_def BigNumber_isNaN_def isNegative_def
        integerValue_Big dividedBy_100)

lemma BankAmount_parse_ED: "BankAmount_parse ''ED'' amountStr = amount_result amountStr True"
  by (cases "BigNumber (replace_first (CHR '','') (CHR ''.'') amountStr)")
     (simp_all add: BankAmount_parse_def amount_result_def BigNumber_isNaN_def isNegative_def
        integerValue_Big dividedBy_100)

lemma BankAmount_parse_RC: "BankAmount_parse ''RC'' amountStr = amount_result amountStr True"
  by (cases "BigNumber (replace_first (CHR '','') (CHR ''.'') amountStr)")
     (simp_all add: BankAmount_parse_def amount_result_def BigNumber_isNaN_def isNegative_def
        integerValue_Big dividedBy_100)

lemma BankAmount_parse_RD: "BankAmount_parse ''RD'' amountStr = amount_result amountStr False"
  by (cases "BigNumber (replace_first (CHR '','') (CHR ''.'') amountStr)")
     (simp_all add: BankAmount_parse_def amount_result_def BigNumber_isNaN_def isNegative_def
        integerValue_Big dividedBy_100)

lemmas BankAmount_parse_valid =
  BankAmount_parse_C BankAmount_parse_D BankAmount_parse_EC BankAmount_parse_ED
  BankAmount_parse_RC BankAmount_parse_RD

lemma BankAmount_parse_invalid:
  assumes "dcmark \<notin> {''C'', ''D'', ''EC'', ''ED'', ''RC'', ''RD''}"
  shows "BankAmount_parse dcmark amountStr =
    (if length dcmark = 2 \<and> dcmark ! 0 \<notin> set ''ER''
     then Inl (NotReversalOrExpectedMark dcmark) else Inl (WrongDebitCreditMark dcmark))"
proof (cases "length dcmark = 2")
  case True
  then obtain a b where "dcmark = [a, b]"
    by (cases dcmark; cases "tl dcmark") auto
  with assms show ?thesis by (auto simp: BankAmount_parse_def)
next
  case False
  with assms show ?thesis by (auto simp: BankAmount_parse_def)
qed

lemma whitespaceOrPlus_minus:
  "\<exists>t. whitespaceOrPlus (CHR ''-'' # r) = CHR ''-'' # t"
proof -
  have "dropWhile is_space (rev r @ [CHR ''-'']) = dropWhile is_space (rev r) @ [CHR ''-'']"
    by (induction "rev r" arbitrary: r) (auto simp: is_space_def dropWhile_append)
  then show ?thesis
    by (cases r) (auto simp: whitespaceOrPlus_def is_space_def)
qed

lemma decimal_notation_minus:
  "decimal_notation (CHR ''-'' # r) = map_option (Big True) (dec_literal r)"
  by (simp add: decimal_notation_def)

lemma BigNumber_minus:
  "BigNumber (CHR ''-'' # r) = BigNaN \<or> isNegative (BigNumber (CHR ''-'' # r))"
proof (cases "dec_literal r")
  case (Some q)
  then show ?thesis by (simp add: BigNumber_def decimal_notation_minus isNegative_def)
next
  case None
  obtain t where t: "whitespaceOrPlus (CHR ''-'' # r) = CHR ''-'' # t"
    using whitespaceOrPlus_minus by blast
  show ?thesis
    using None
    by (cases "dec_literal t")
       (auto simp: BigNumber_def decimal_notation_minus parseNumeric_def t isNegative_def Let_def)
qed

lemma replace_first_minus:
  "replace_first (CHR '','') (CHR ''.'') (CHR ''-'' # r) = CHR ''-'' # replace_first (CHR '','') (CHR ''.'') r"
  by simp

lemma BankAmount_parse_minus: "isl (BankAmount_parse dcmark (CHR ''-'' # r))"
proof -
  have "BigNumber_isNaN (BigNumber (replace_first (CHR '','') (CHR ''.'') (CHR ''-'' # r))) \<or>
        isNegative (BigNumber (replace_first (CHR '','') (CHR ''.'') (CHR ''-'' # r)))"
    unfolding replace_first_minus BigNumber_isNaN_def by (rule BigNumber_minus)
  then show ?thesis
    by (auto simp: BankAmount_parse_def Let_def)
qed



section \<open>The claims about amounts\<close>

text \<open>
  Claim C1.  The claim reads: for every successfully parsed marker and digit string,
  \<open>parseAmount\<close> truncates the signed result to two decimal places (scaling by 100,
  taking the integer part, scaling back; towards zero, not rounding), and
  \<open>parseAmount("C", "10,005") = 10.00\<close>.  The code calls \<open>integerValue()\<close> without a
  rounding mode, which rounds by the library's \<open>ROUNDING_MODE\<close>, \<open>ROUND_HALF_UP\<close>: the
  result of \<open>parseAmount("C", "10,005")\<close> is 10.01.  What holds instead: whenever the
  parse succeeds on a finite amount \<open>q\<close>, the result has the sign given by the marks and
  the magnitude \<open>q\<close> times 100, rounded to the nearest integer with a tie going away from
  zero, over 100.
\<close>

theorem parseAmount_rounds_half_up:
  assumes "BankAmount_parse dcmark amountStr = Inr v"
    and "BigNumber (replace_first (CHR '','') (CHR ''.'') amountStr) = Big neg q"
  shows "v = Big (debit_sign dcmark) (of_int \<lfloor>q * 100 + 1 / 2\<rfloor> / 100)"
proof (cases "dcmark \<in> {''C'', ''D'', ''EC'', ''ED'', ''RC'', ''RD''}")
  case True
  with assms show ?thesis
    by (auto simp: BankAmount_parse_valid amount_result_def debit_sign_def split: if_splits)
next
  case False
  with assms(1) show ?thesis by (simp add: BankAmount_parse_invalid split: if_splits)
qed

theorem parseAmount_rounds_half_up_witness:
  "BankAmount_parse ''C'' ''10,005'' = Inr (Big False (1001 / 100)) \<and>
   BigNumber (replace_first (CHR '','') (CHR ''.'') ''10,005'') = Big False (2001 / 200) \<and>
   Big False (1001 / 100) =
     Big (debit_sign ''C'') (of_int \<lfloor>(2001 / 200 :: rat) * 100 + 1 / 2\<rfloor> / 100)"
proof -
  have a: "BankAmount_parse ''C'' ''10,005'' = Inr (Big False (1001 / 100))" by code_simp
  have b: "BigNumber (replace_first (CHR '','') (CHR ''.'') ''10,005'') = Big False (2001 / 200)"
    by code_simp
  from parseAmount_rounds_half_up[OF a b] a b show ?thesis by simp
qed

theorem parseAmount_truncation_counterexample:
  "BankAmount_parse ''C'' ''10,005'' = Inr (Big False (1001 / 100)) \<and>
   BankAmount_parse ''C'' ''10,005'' \<noteq> Inr (Big False 10)"
proof -
  have "BankAmount_parse ''C'' ''10,005'' = Inr (Big False (1001 / 100))" by code_simp
  then show ?thesis by simp
qed

text \<open>
  Claim C3.  \<open>parseAmount\<close> negates the amount under the mark \<open>D\<close> and negates again under
  a leading \<open>R\<close>, while \<open>E\<close> changes nothing: \<open>parseAmount("D", "150,00") = -150.00\<close>,
  \<open>parseAmount("C", "150,00") = 150.00\<close>, \<open>parseAmount("RD", "150,00") = 150.00\<close> and
  \<open>parseAmount("ED", "150,00") = -150.00\<close>; and for every amount string the outcome under
  \<open>D\<close> is that under \<open>C\<close> with the sign changed, \<open>RD\<close> gives what \<open>C\<close> gives, \<open>RC\<close> what \<open>D\<close>
  gives, and \<open>ED\<close> and \<open>EC\<close> what \<open>D\<close> and \<open>C\<close> give.
\<close>

theorem parseAmount_sign:
  "BankAmount_parse ''D'' ''150,00'' = Inr (Big True 150) \<and>
   BankAmount_parse ''C'' ''150,00'' = Inr (Big False 150) \<and>
   BankAmount_parse ''RD'' ''150,00'' = Inr (Big False 150) \<and>
   BankAmount_parse ''ED'' ''150,00'' = Inr (Big True 150) \<and>
   (\<forall>amountStr.
      BankAmount_parse ''D'' amountStr = map_sum id negated (BankAmount_parse ''C'' amountStr) \<and>
      BankAmount_parse ''RD'' amountStr = BankAmount_parse ''C'' amountStr \<and>
      BankAmount_parse ''RC'' amountStr = BankAmount_parse ''D'' amountStr \<and>
      BankAmount_parse ''ED'' amountStr = BankAmount_parse ''D'' amountStr \<and>
      BankAmount_parse ''EC'' amountStr = BankAmount_parse ''C'' amountStr)"
proof -
  have "BankAmount_parse ''D'' ''150,00'' = Inr (Big True 150)" by code_simp
  moreover have "BankAmount_parse ''C'' ''150,00'' = Inr (Big False 150)" by code_simp
  moreover have "BankAmount_parse ''RD'' ''150,00'' = Inr (Big False 150)" by code_simp
  moreover have "BankAmount_parse ''ED'' ''150,00'' = Inr (Big True 150)" by code_simp
  moreover have "amount_result amountStr True = map_sum id negated (amount_result amountStr False)"
    for amountStr
    by (simp add: amount_result_def negated_def split: bignumber.splits)
  ultimately show ?thesis
    by (simp add: BankAmount_parse_valid)
qed

text \<open>
  Claim C6.  \<open>parseAmount\<close> fails with "not a reversal/expected mark" whenever the marker
  has two characters and the first is neither \<open>E\<close> nor \<open>R\<close>; it fails with "wrong
  debit/credit mark" whenever that first check passes and the debit/credit mark (the
  second character of a marker of two, the whole marker otherwise) is neither \<open>D\<close> nor
  \<open>C\<close>; and it fails, under every marker, whenever the amount string starts with a minus
  sign.
\<close>

theorem parseAmount_failures:
  "(length dcmark = 2 \<and> dcmark ! 0 \<notin> set ''ER'' \<longrightarrow>
      BankAmount_parse dcmark amountStr = Inl (NotReversalOrExpectedMark dcmark)) \<and>
   (\<not> (length dcmark = 2 \<and> dcmark ! 0 \<notin> set ''ER'') \<and>
    (if length dcmark = 2 then [dcmark ! 1] else dcmark) \<notin> {''D'', ''C''} \<longrightarrow>
      BankAmount_parse dcmark amountStr = Inl (WrongDebitCreditMark dcmark)) \<and>
   isl (BankAmount_parse dcmark (CHR ''-'' # digits))"
proof (intro conjI impI)
  show "isl (BankAmount_parse dcmark (CHR ''-'' # digits))" by (rule BankAmount_parse_minus)
qed (auto simp: BankAmount_parse_def Let_def)

theorem parseAmount_failures_witness:
  "BankAmount_parse ''QD'' ''150,00'' = Inl (NotReversalOrExpectedMark ''QD'') \<and>
   BankAmount_parse ''X'' ''150,00'' = Inl (WrongDebitCreditMark ''X'') \<and>
   isl (BankAmount_parse ''C'' ''-150,00'')"
  using parseAmount_failures[of "''QD''" "''150,00''" "''150,00''"]
    parseAmount_failures[of "''X''" "''150,00''" "''150,00''"]
    parseAmount_failures[of "''C''" "''150,00''" "''150,00''"]
  by simp

text \<open>
  Claim C10.  \<open>parseAmount\<close> succeeds only under one of the markers \<open>C\<close>, \<open>D\<close>, \<open>EC\<close>, \<open>ED\<close>,
  \<open>RC\<close>, \<open>RD\<close>: under every other marker, whatever its length and whatever the amount
  string, it throws; a marker of two characters whose first is neither \<open>E\<close> nor \<open>R\<close> is not
  a reversal/expected mark, and every other one, the empty marker and the markers of
  three characters or more among them, is taken whole as a wrong debit/credit mark.
\<close>

theorem parseAmount_markers:
  "dcmark \<notin> {''C'', ''D'', ''EC'', ''ED'', ''RC'', ''RD''} \<Longrightarrow>
   BankAmount_parse dcmark amountStr =
     (if length dcmark = 2 \<and> dcmark ! 0 \<notin> set ''ER''
      then Inl (NotReversalOrExpectedMark dcmark) else Inl (WrongDebitCreditMark dcmark))"
  by (rule BankAmount_parse_invalid)

theorem parseAmount_markers_witness:
  "''RDX'' \<notin> {''C'', ''D'', ''EC'', ''ED'', ''RC'', ''RD''} \<and>
   BankAmount_parse ''RDX'' ''150,00'' = Inl (WrongDebitCreditMark ''RDX'') \<and>
   BankAmount_parse [] ''150,00'' = Inl (WrongDebitCreditMark []) \<and>
   BankAmount_parse ''DC'' ''150,00'' = Inl (NotReversalOrExpectedMark ''DC'')"
  using parseAmount_markers[of "''RDX''" "''150,00''"] parseAmount_markers[of "[]" "''150,00''"]
    parseAmount_markers[of "''DC''" "''150,00''"]
  by simp

section \<open>The claim about dates\<close>

lemma is_digit_cases: "is_digit c \<Longrightarrow> c \<in> set ''0123456789''"
  by (simp add: is_digit_def)

lemma is_digit_not_special:
  assumes "is_digit c"
  shows "\<not> is_space c" "c \<noteq> CHR ''-''" "c \<noteq> CHR ''+''" "c \<noteq> CHR ''.''" "c \<noteq> CHR ''e''"
    "c \<noteq> CHR ''E''" "c \<noteq> CHR ''x''" "c \<noteq> CHR ''X''" "c \<noteq> CHR ''o''" "c \<noteq> CHR ''O''"
    "c \<noteq> CHR ''b''" "c \<noteq> CHR ''B''" "c \<noteq> CHR ''I''"
  using is_digit_cases[OF assms] by (auto simp: is_space_def)

lemma digit_val_range:
  assumes "is_digit c"
  shows "0 \<le> digit_val c" "digit_val c \<le> 9"
  using is_digit_cases[OF assms] by (auto simp: digit_val_def)

lemma digits_value_2: "digits_value 10 [a, b] = 10 * digit_val a + digit_val b"
  by (simp add: digits_value_def)

lemma digits_value_20: "digits_value 10 (''20'' @ [a, b]) = 2000 + digits_value 10 [a, b]"
  by (simp add: digits_value_def digit_val_def)

lemma digits_value_2_range:
  assumes "is_digit a" "is_digit b"
  shows "0 \<le> digits_value 10 [a, b]" "digits_value 10 [a, b] \<le> 99"
  using digit_val_range[OF assms(1)] digit_val_range[OF assms(2)]
  by (auto simp: digits_value_2)

lemma parseInt_2:
  assumes "is_digit a" "is_digit b"
  shows "parseInt [a, b] = Some (digits_value 10 [a, b])"
  using assms is_digit_not_special[OF assms(1)]
  by (simp add: parseInt_def)

lemma parseInt_20:
  assumes "is_digit a" "is_digit b"
  shows "parseInt (''20'' @ [a, b]) = Some (2000 + digits_value 10 [a, b])"
proof -
  have "\<not> is_space (CHR ''2'')" "is_digit (CHR ''2'')" "is_digit (CHR ''0'')"
    by (simp_all add: is_space_def is_digit_def)
  then have "parseInt (''20'' @ [a, b]) = Some (digits_value 10 (''20'' @ [a, b]))"
    using assms by (simp add: parseInt_def)
  then show ?thesis by (simp only: digits_value_20)
qed

lemma StringToNumber_2:
  assumes "is_digit a" "is_digit b"
  shows "StringToNumber [a, b] = Finite (of_int (digits_value 10 [a, b]))"
proof -
  note na = is_digit_not_special[OF assms(1)] and nb = is_digit_not_special[OF assms(2)]
  have "trim [a, b] = [a, b]" using na nb by (simp add: trim_def)
  moreover have "radix_literal [a, b] = None"
    by (simp add: radix_literal_def radix_digits_def)
  moreover have "dec_literal [a, b] = Some (of_int (digits_value 10 [a, b]))"
    using na nb assms by (simp add: dec_literal_def dec_mantissa_def)
  ultimately show ?thesis using na by (simp add: StringToNumber_def)
qed

lemma truncate_of_int [simp]: "truncate (of_int i) = i"
  by (simp add: truncate_def)

lemma days_before_month_range:
  assumes "mn < 12"
  shows "0 \<le> days_before_month y mn" "days_before_month y mn \<le> 335"
proof -
  from assms have "mn = 0 \<or> mn = 1 \<or> mn = 2 \<or> mn = 3 \<or> mn = 4 \<or> mn = 5 \<or> mn = 6 \<or> mn = 7 \<or>
      mn = 8 \<or> mn = 9 \<or> mn = 10 \<or> mn = 11"
    by presburger
  then show "0 \<le> days_before_month y mn" "days_before_month y mn \<le> 335"
    by (auto simp: days_before_month_def)
qed

lemma DayFromYear_range:
  assumes "1999 \<le> y" "y \<le> 2108"
  shows "10000 \<le> DayFromYear y" "DayFromYear y \<le> 60000"
proof -
  have a: "7 \<le> (y - 1969) div 4" "(y - 1969) div 4 \<le> 34" using assms by linarith+
  have b: "0 \<le> (y - 1901) div 100" "(y - 1901) div 100 \<le> 2" using assms by linarith+
  have c: "0 \<le> (y - 1601) div 400" "(y - 1601) div 400 \<le> 1" using assms by linarith+
  define p q r where "p = (y - 1969) div 4" and "q = (y - 1901) div 100" and "r = (y - 1601) div 400"
  have d: "DayFromYear y = 365 * (y - 1970) + p - q + r"
    by (simp add: DayFromYear_def p_def q_def r_def)
  from a b c assms show "10000 \<le> DayFromYear y"
    unfolding d p_def[symmetric] q_def[symmetric] r_def[symmetric] by presburger
  from a b c assms show "DayFromYear y \<le> 60000"
    unfolding d p_def[symmetric] q_def[symmetric] r_def[symmetric] by presburger
qed


text \<open>
  Claim C7.  \<open>parseDate\<close> reads every two-digit year as a year of the 2000s: under a
  year of two digits it gives, for every month and day, what it gives under that year
  with \<open>20\<close> in front.  It builds the UTC date with no check of the ranges of month and
  day: every month and day of two digits is accepted, and the date is the first day of
  the month counted from January of the year (month 00 being the December before, and
  months beyond 12 running into the following years) moved on by the day less one.
  So \<open>parseDate("23", "02", "29")\<close> is in the year 2023, and is 1 March 2023.
\<close>

theorem parseDate_two_digit_year:
  assumes "length year = 2" and "list_all is_digit year"
  shows "BankDate_parse year month day = BankDate_parse (''20'' @ year) month day \<and>
    (length month = 2 \<and> list_all is_digit month \<and> length day = 2 \<and> list_all is_digit day \<longrightarrow>
       BankDate_parse year month day =
         (let y = 2000 + digits_value 10 year;
              m = digits_value 10 month - 1;
              ym = y + m div 12
          in Date (Some (86400000 *
               (DayFromYear ym + days_before_month ym (nat (m mod 12)) + digits_value 10 day - 1)))))"
proof -
  from assms obtain a b where year: "year = [a, b]" and ab: "is_digit a" "is_digit b"
    by (cases year; cases "tl year") auto
  note yr = digits_value_2_range[OF ab]
  have p: "parseInt year = Some (digits_value 10 year)" unfolding year by (rule parseInt_2[OF ab])
  have p20: "parseInt (''20'' @ year) = Some (2000 + digits_value 10 year)"
    unfolding year by (rule parseInt_20[OF ab])
  have first: "BankDate_parse year month day = BankDate_parse (''20'' @ year) month day"
    using yr parseInt_2[OF ab] parseInt_20[OF ab]
    by (simp add: BankDate_parse_def year add.commute)
  have second: "BankDate_parse year month day =
         (let y = 2000 + digits_value 10 year;
              m = digits_value 10 month - 1;
              ym = y + m div 12
          in Date (Some (86400000 *
               (DayFromYear ym + days_before_month ym (nat (m mod 12)) + digits_value 10 day - 1))))"
    if md: "length month = 2" "list_all is_digit month" "length day = 2" "list_all is_digit day"
  proof -
    from md obtain c d where month: "month = [c, d]" and cd: "is_digit c" "is_digit d"
      by (cases month; cases "tl month") auto
    from md obtain e f where day: "day = [e, f]" and ef: "is_digit e" "is_digit f"
      by (cases day; cases "tl day") auto
    define Y where "Y = 2000 + digits_value 10 year"
    define M where "M = digits_value 10 month - 1"
    define D where "D = digits_value 10 day"
    define ym where "ym = Y + M div 12"
    define days where "days = DayFromYear ym + days_before_month ym (nat (M mod 12)) + D - 1"
    have Y: "2000 \<le> Y" "Y \<le> 2099" using yr by (auto simp: Y_def year)
    have M: "- 1 \<le> M" "M \<le> 98" using digits_value_2_range[OF cd] by (auto simp: M_def month)
    have D: "0 \<le> D" "D \<le> 99" using digits_value_2_range[OF ef] by (auto simp: D_def day)
    have "- 1 \<le> M div 12" "M div 12 \<le> 8" using M by linarith+
    then have ym: "1999 \<le> ym" "ym \<le> 2108" using Y unfolding ym_def by linarith+
    have mn: "nat (M mod 12) < 12" by simp
    have bound: "\<bar>days * 86400000\<bar> \<le> 8640000000000000"
      using DayFromYear_range[OF ym] days_before_month_range[OF mn, of ym] D
      unfolding days_def by simp
    have pm: "parseInt month = Some (digits_value 10 month)"
      unfolding month by (rule parseInt_2[OF cd])
    have sd: "StringToNumber day = Finite (of_int D)"
      unfolding day D_def by (rule StringToNumber_2[OF ef])
    have "Date_UTC (Finite (of_int Y)) (Finite (of_int M)) (Finite (of_int D)) = Some (days * 86400000)"
      using Y bound
      by (simp add: Date_UTC_def MakeDay_def TimeClip_def days_def ym_def Let_def)
    moreover have "(case parseInt year of None \<Rightarrow> None
        | Some y \<Rightarrow> if y < 100 then Some (y + 2000) else Some y) = Some Y"
      using yr parseInt_2[OF ab] by (simp add: Y_def year)
    moreover have "map_option (\<lambda>m. m - 1) (parseInt month) = Some M"
      by (simp add: pm M_def)
    ultimately have "BankDate_parse year month day = Date (TimeClip (Some (days * 86400000)))"
      by (simp only: BankDate_parse_def Let_def sd of_parseInt_def option.case)
    with bound have "BankDate_parse year month day = Date (Some (days * 86400000))"
      by (simp add: TimeClip_def)
    then show ?thesis
      by (simp add: Let_def days_def ym_def Y_def M_def D_def mult.commute)
  qed
  from first second show ?thesis by blast
qed

theorem parseDate_two_digit_year_witness:
  "length ''23'' = 2 \<and> list_all is_digit ''23'' \<and>
   length ''02'' = 2 \<and> list_all is_digit ''02'' \<and> length ''29'' = 2 \<and> list_all is_digit ''29'' \<and>
   BankDate_parse ''23'' ''02'' ''29'' = BankDate_parse ''2023'' ''02'' ''29'' \<and>
   BankDate_parse ''23'' ''02'' ''29'' = Date (Some 1677628800000) \<and>
   BankDate_parse ''2023'' ''03'' ''01'' = Date (Some 1677628800000)"
proof -
  have a: "length ''23'' = 2" "list_all is_digit ''23''"
    "length ''02'' = 2 \<and> list_all is_digit ''02'' \<and> length ''29'' = 2 \<and> list_all is_digit ''29''"
    by (simp_all add: is_digit_def)
  have b: "BankDate_parse ''2023'' ''03'' ''01'' = Date (Some 1677628800000)" by code_simp
  have c: "BankDate_parse ''23'' ''02'' ''29'' = Date (Some 1677628800000)" by code_simp
  from parseDate_two_digit_year[OF a(1,2), of "''02''" "''29''"] a b c show ?thesis by simp
qed

section \<open>The claims about the factory\<close>

lemma tagMap_iff: "tagMap k = Some c \<longleftrightarrow> ID c = k"
  by (cases c) (auto simp: tagMap_def tag_classes_def split: if_splits)

lemma tagMap_None: "tagMap k = None \<longleftrightarrow> (\<forall>c. ID c \<noteq> k)"
  by (metis tagMap_iff not_Some_eq)

lemma digit_val_nth: "k < 10 \<Longrightarrow> digit_val (''0123456789'' ! k) = int k \<and> is_digit (''0123456789'' ! k)"
proof -
  assume "k < 10"
  then have "k = 0 \<or> k = 1 \<or> k = 2 \<or> k = 3 \<or> k = 4 \<or> k = 5 \<or> k = 6 \<or> k = 7 \<or> k = 8 \<or> k = 9"
    by presburger
  then show ?thesis by (auto simp: digit_val_def is_digit_def)
qed

lemma digits_value_snoc: "digits_value b (xs @ [c]) = b * digits_value b xs + digit_val c"
  by (simp add: digits_value_def)

lemma nat_digits_props:
  "nat_digits n \<noteq> [] \<and> list_all is_digit (nat_digits n) \<and> digits_value 10 (nat_digits n) = int n"
proof (induction n rule: nat_digits.induct)
  case (1 n)
  show ?case
  proof (cases "n < 10")
    case True
    then show ?thesis
      using digit_val_nth[of n] by (subst (1 2 3) nat_digits.simps) (simp add: digits_value_def)
  next
    case False
    with 1 have IH: "nat_digits (n div 10) \<noteq> []" "list_all is_digit (nat_digits (n div 10))"
      "digits_value 10 (nat_digits (n div 10)) = int (n div 10)" by auto
    have m: "n mod 10 < 10" by simp
    from False IH digit_val_nth[OF m] show ?thesis
      by (subst (1 2 3) nat_digits.simps) (simp add: digits_value_snoc zdiv_int zmod_int)
  qed
qed

lemma parseInt_digits:
  assumes "ds \<noteq> []" "list_all is_digit ds"
  shows "parseInt ds = Some (digits_value 10 ds)"
    and "parseInt (CHR ''-'' # ds) = Some (- digits_value 10 ds)"
proof -
  from assms obtain d ds' where ds: "ds = d # ds'" and d: "is_digit d" by (cases ds) auto
  have tw: "takeWhile is_digit ds = ds" using assms(2) by (simp add: list_all_iff)
  from is_digit_not_special[OF d] tw assms(1) show "parseInt ds = Some (digits_value 10 ds)"
    by (simp add: parseInt_def ds)
  have "\<not> is_space (CHR ''-'')" by (simp add: is_space_def)
  with assms(1) show "parseInt (CHR ''-'' # ds) = Some (- digits_value 10 ds)"
    by (simp add: parseInt_def Let_def tw)
qed

lemma parseInt_int_toString: "parseInt (int_toString n) = Some n"
proof (cases "n < 0")
  case True
  then show ?thesis
    using parseInt_digits(2)[of "nat_digits (nat (- n))"] nat_digits_props[of "nat (- n)"]
    by (simp add: int_toString_def)
next
  case False
  then show ?thesis
    using parseInt_digits(1)[of "nat_digits (nat n)"] nat_digits_props[of "nat n"]
    by (simp add: int_toString_def)
qed

lemma fullTagId_of_IdNumber: "fullTagId_of (IdNumber n) subId = int_toString n @ subId"
  by (simp add: fullTagId_of_def tagId_of_def tagId_toString_def parseInt_int_toString
      parseInt_toString_def)

lemma split_at_none: "list_all (\<lambda>c. \<not> p c) s \<Longrightarrow> split_at p s = (s, None)"
  by (induction s) auto

lemma dec_literal_digits:
  assumes "ds \<noteq> []" "list_all is_digit ds"
  shows "dec_literal ds = Some (of_int (digits_value 10 ds))"
proof -
  have "list_all (\<lambda>c. \<not> (c = CHR ''e'' \<or> c = CHR ''E'')) ds" "list_all (\<lambda>c. \<not> c = CHR ''.'') ds"
    using assms(2) is_digit_not_special by (auto simp: list_all_iff)
  then have "split_at (\<lambda>c. c = CHR ''e'' \<or> c = CHR ''E'') ds = (ds, None)"
    "split_at (\<lambda>c. c = CHR ''.'') ds = (ds, None)"
    by (auto intro: split_at_none)
  with assms show ?thesis by (simp add: dec_literal_def dec_mantissa_def)
qed

lemma trim_id:
  assumes "s \<noteq> []" "\<not> is_space (hd s)" "\<not> is_space (last s)"
  shows "trim s = s"
proof -
  from assms have "dropWhile is_space s = s" by (cases s) auto
  moreover from assms have "dropWhile is_space (rev s) = rev s"
    by (cases "rev s") (auto simp: last_rev[symmetric] simp del: last_rev)
  ultimately show ?thesis by (simp add: trim_def)
qed

lemma radix_literal_digits:
  assumes "list_all is_digit ds"
  shows "radix_literal ds = None" "radix_literal (CHR ''-'' # ds) = None"
proof -
  show "radix_literal (CHR ''-'' # ds) = None"
    by (cases ds) (simp_all add: radix_literal_def)
  show "radix_literal ds = None"
  proof (cases ds)
    case Nil
    then show ?thesis by (simp add: radix_literal_def)
  next
    case (Cons z r)
    show ?thesis
    proof (cases r)
      case Nil
      with Cons show ?thesis by (simp add: radix_literal_def)
    next
      case (Cons p r')
      with \<open>ds = z # r\<close> assms have "is_digit p" by simp
      from is_digit_not_special[OF this] Cons \<open>ds = z # r\<close> show ?thesis
        by (simp add: radix_literal_def)
    qed
  qed
qed

lemma StringToNumber_digits:
  assumes "ds \<noteq> []" "list_all is_digit ds"
  shows "StringToNumber ds = Finite (of_int (digits_value 10 ds))"
    and "StringToNumber (CHR ''-'' # ds) = Finite (- of_int (digits_value 10 ds))"
proof -
  from assms have h: "is_digit (hd ds)" and l: "is_digit (last ds)"
    by (auto simp: list_all_iff)
  have t1: "trim ds = ds"
    using assms(1) is_digit_not_special(1)[OF h] is_digit_not_special(1)[OF l] by (rule trim_id)
  have t2: "trim (CHR ''-'' # ds) = CHR ''-'' # ds"
    using is_digit_not_special(1)[OF l] assms(1) by (intro trim_id) (auto simp: is_space_def)
  have ne: "ds \<noteq> ''Infinity''"
    using h is_digit_not_special(13)[OF h] by auto
  from is_digit_not_special[OF h] assms(1) have s: "take 1 ds \<noteq> ''-''" "take 1 ds \<noteq> ''+''"
    by (cases ds; simp)+
  show "StringToNumber ds = Finite (of_int (digits_value 10 ds))"
    using assms(1) s ne
    by (simp add: StringToNumber_def t1 radix_literal_digits[OF assms(2)]
        dec_literal_digits[OF assms])
  show "StringToNumber (CHR ''-'' # ds) = Finite (- of_int (digits_value 10 ds))"
    using ne
    by (simp add: StringToNumber_def t2 radix_literal_digits[OF assms(2)]
        dec_literal_digits[OF assms])
qed

lemma isNaN_int_toString: "\<not> isNaN (int_toString n)"
proof (cases "n < 0")
  case True
  then show ?thesis
    using StringToNumber_digits(2)[of "nat_digits (nat (- n))"] nat_digits_props[of "nat (- n)"]
    by (simp add: int_toString_def isNaN_def)
next
  case False
  then show ?thesis
    using StringToNumber_digits(1)[of "nat_digits (nat n)"] nat_digits_props[of "nat n"]
    by (simp add: int_toString_def isNaN_def)
qed



lemma ID_neq_cases: "(\<forall>c. ID c \<noteq> k) \<longleftrightarrow>
  k \<notin> {KNum 20, KNum 21, KNum 25, KNum 28, KStr ''34F'', KStr ''13D'', KStr ''NS'', KNum 60, KNum 62,
    KStr ''90D'', KStr ''90C'', KNum 61, KNum 86, KNum 64, KNum 65, KStr ''MB'', KStr ''13''}"
proof
  assume "\<forall>c. ID c \<noteq> k"
  then have "\<forall>c \<in> set tag_classes. ID c \<noteq> k" by blast
  then show "k \<notin> {KNum 20, KNum 21, KNum 25, KNum 28, KStr ''34F'', KStr ''13D'', KStr ''NS'', KNum 60, KNum 62,
    KStr ''90D'', KStr ''90C'', KNum 61, KNum 86, KNum 64, KNum 65, KStr ''MB'', KStr ''13''}"
    by (auto simp: tag_classes_def)
next
  assume a: "k \<notin> {KNum 20, KNum 21, KNum 25, KNum 28, KStr ''34F'', KStr ''13D'', KStr ''NS'', KNum 60, KNum 62,
    KStr ''90D'', KStr ''90C'', KNum 61, KNum 86, KNum 64, KNum 65, KStr ''MB'', KStr ''13''}"
  show "\<forall>c. ID c \<noteq> k"
  proof
    fix c show "ID c \<noteq> k" using a by (cases c) auto
  qed
qed


lemma greedy_run_Nil [simp]: "greedy_run cc hi [] = []"
  by (simp add: greedy_run_def split: option.splits)

lemma greedy_run_Cons:
  "greedy_run cc hi (c # cs) =
     (if hi \<noteq> Some 0 \<and> in_class cc c then c # greedy_run cc (map_option (\<lambda>h. h - 1) hi) cs else [])"
  by (cases hi) (auto simp: greedy_run_def take_Cons')

lemma greedy_run_prefix: "take (length (greedy_run cc hi cs)) cs = greedy_run cc hi cs"
proof -
  have tw: "take (length (takeWhile P xs)) xs = takeWhile P xs" for P and xs :: string
    by (induction xs) auto
  have "take (length (take h (takeWhile P xs))) xs = take h (take (length (takeWhile P xs)) xs)"
    for P h and xs :: string
    by (simp add: min.commute)
  then have "take (length (take h (takeWhile P xs))) xs = take h (takeWhile P xs)"
    for P h and xs :: string
    by (simp only: tw)
  with tw show ?thesis by (simp add: greedy_run_def split: option.splits)
qed

lemma rep_greedy_total:
  assumes "\<And>s'. k s' \<noteq> None" and "rest s = cs"
  shows "rep_greedy cc 0 hi k cs s =
    k (MState (pos s + length (greedy_run cc hi cs)) (drop (length (greedy_run cc hi cs)) cs) (caps s))"
  using assms(2)
proof (induction cs arbitrary: hi s)
  case Nil
  then show ?case by (cases s) simp
next
  case (Cons c cs)
  show ?case
  proof (cases "hi \<noteq> Some 0 \<and> in_class cc c")
    case True
    have r: "rest (advance s) = cs" using Cons.prems by (simp add: advance_def)
    obtain t where t: "k (MState (pos (advance s) + length (greedy_run cc (map_option (\<lambda>h. h - 1) hi) cs))
        (drop (length (greedy_run cc (map_option (\<lambda>h. h - 1) hi) cs)) cs) (caps (advance s))) = Some t"
      using assms(1) by (meson not_Some_eq)
    with True Cons.IH[OF r, of "map_option (\<lambda>h. h - 1) hi"] show ?thesis
      by (simp add: greedy_run_Cons advance_def)
  next
    case False
    with Cons.prems show ?thesis
      by (cases s) (auto simp: greedy_run_Cons)
  qed
qed

lemma scan_at_start:
  "rmatch (Grp 0 r) Some (MState i cs (\<lambda>n. None)) = Some s \<Longrightarrow> scan r i cs = Some (Match (pos s) (caps s))"
  by (cases cs) simp_all

lemma exec_prefix_pattern:
  "exec (Seq Bol (Grp 1 (Rep cc 0 hi True))) str 0 =
     Some (Match (length (greedy_run cc hi str))
       ((\<lambda>n. None)(1 := Some (greedy_run cc hi str), 0 := Some (greedy_run cc hi str))))"
proof -
  have "rmatch (Grp 0 (Seq Bol (Grp 1 (Rep cc 0 hi True)))) Some (MState 0 str (\<lambda>n. None)) =
    Some (MState (length (greedy_run cc hi str)) (drop (length (greedy_run cc hi str)) str)
      ((\<lambda>n. None)(1 := Some (greedy_run cc hi str), 0 := Some (greedy_run cc hi str))))"
    by (simp add: rep_greedy_total set_cap_def greedy_run_prefix)
  from scan_at_start[OF this] show ?thesis by (simp add: exec_def)
qed

lemma greedy_run_dot: "greedy_run dot (Some n) str = take n (first_line str)"
  "greedy_run dot None str = first_line str"
proof -
  have "in_class dot = (\<lambda>c. c \<notin> set [CHR 0x0A, CHR 0x0D])"
    by (simp add: fun_eq_iff in_class_def dot_def)
  then show "greedy_run dot (Some n) str = take n (first_line str)"
    "greedy_run dot None str = first_line str"
    by (simp_all add: greedy_run_def first_line_def)
qed

lemma greedy_run_any: "greedy_run (NoneOf []) (Some n) str = take n str"
proof -
  have a: "in_class (NoneOf []) = (\<lambda>c. True)" by (simp add: fun_eq_iff in_class_def)
  have b: "takeWhile (\<lambda>c. True) str = str" by (induction str) auto
  show ?thesis by (simp only: greedy_run_def a b option.case)
qed

lemma new_Tag_simple:
  "new_Tag TagTransactionReferenceNumber str =
     Inr (Tag (KNum 20) str [''transactionReference'' \<mapsto> VString (take 16 (first_line str))] None)"
  "new_Tag TagRelatedReference str =
     Inr (Tag (KNum 21) str [''relatedReference'' \<mapsto> VString (take 16 (first_line str))] None)"
  "new_Tag TagAccountIdentification str =
     Inr (Tag (KNum 25) str [''accountIdentification'' \<mapsto> VString (take 35 (first_line str))] None)"
  "new_Tag TagNonSwift str =
     Inr (Tag (KStr ''NS'') str [''nonSwift'' \<mapsto> VString (first_line str)] None)"
  "new_Tag TagTransactionDetails str =
     Inr (Tag (KNum 86) str [''transactionDetails'' \<mapsto> VString (take 390 str)] None)"
  unfolding new_Tag_def PATTERN.simps PATTERN_upto_def PATTERN_NonSwift_def
    PATTERN_TransactionDetails_def times_def exec_prefix_pattern
  by (simp_all add: greedy_run_dot greedy_run_any group_value_def)

lemma tagId_of_IdNumber: "tagId_of (IdNumber n) = TagNum (Some n)"
  by (simp add: tagId_of_def parseInt_int_toString)

lemma createTag_IdString_digits:
  "createTag (IdString (int_toString n)) subId str = createTag (IdNumber n) subId str"
proof -
  have t: "tagId_of (IdString (int_toString n)) = tagId_of (IdNumber n)"
    by (simp add: tagId_of_def isNaN_int_toString)
  then have f: "fullTagId_of (IdString (int_toString n)) subId = fullTagId_of (IdNumber n) subId"
    by (simp add: fullTagId_of_def)
  show ?thesis by (simp only: createTag_def tagClass_of_def t f)
qed

lemma int_toString_small:
  "int_toString 20 = ''20''" "int_toString 21 = ''21''" "int_toString 25 = ''25''"
  "int_toString 86 = ''86''"
  by (simp_all add: int_toString_def)

lemma createTag_numeric:
  assumes "ID c = KNum n" and "int_toString n = [a, b]" and "a \<notin> set ''139NM''"
  shows "createTag (IdNumber n) subId str = new_Tag c str"
proof -
  have "\<forall>c'. ID c' \<noteq> KStr (fullTagId_of (IdNumber n) subId)"
    using assms(3) by (auto simp: ID_neq_cases fullTagId_of_IdNumber assms(2))
  then have "tagMap (KStr (fullTagId_of (IdNumber n) subId)) = None" by (simp add: tagMap_None)
  moreover have "tagMap_get (tagId_of (IdNumber n)) = Some c"
    by (simp add: tagMap_get_def tagId_of_IdNumber tagId_key_def tagMap_iff assms(1))
  ultimately show ?thesis by (simp add: createTag_def tagClass_of_def)
qed

lemma createTag_NS: "createTag (IdString ''NS'') subId str = new_Tag TagNonSwift str"
proof -
  have nan: "isNaN ''NS''" by code_simp
  then have t: "tagId_of (IdString ''NS'') = TagStr ''NS''" by (simp add: tagId_of_def)
  then have f: "fullTagId_of (IdString ''NS'') subId = ''NS'' @ subId"
    by (simp add: fullTagId_of_def tagId_toString_def)
  have g: "tagMap_get (tagId_of (IdString ''NS'')) = Some TagNonSwift"
    by (simp add: t tagMap_get_def tagId_key_def tagMap_iff)
  show ?thesis
  proof (cases "tagMap (KStr (fullTagId_of (IdString ''NS'') subId))")
    case None
    with g show ?thesis by (simp add: createTag_def tagClass_of_def)
  next
    case (Some c)
    then have "ID c = KStr (''NS'' @ subId)" by (simp add: tagMap_iff f)
    then have "c = TagNonSwift" by (cases c) auto
    with Some show ?thesis by (simp add: createTag_def tagClass_of_def)
  qed
qed


text \<open>
  Claim C9.  The claim reads: for every data string, creating a tag with id 20, 21, 25,
  NS or 86 never fails, and the single string field is the input truncated to 16, 16,
  35, no and 390 characters.  Creation never fails, but the point of the patterns of 20,
  21, 25 and NS matches no line terminator: on the input \<open>ab\<close>, line feed, \<open>cd\<close> the field of
  tag 20 is \<open>ab\<close>.  What holds instead: for every data string and every sub-identifier,
  the field of 20, 21, 25 and NS is the part of the input before its first line
  terminator, truncated to 16, 16 and 35 characters and not truncated for NS, and the
  field of 86 is the input truncated to 390 characters; an identifier given as the
  string of its decimal digits behaves as the number.
\<close>

theorem simple_tags_never_fail:
  "createTag (IdNumber 20) subId str =
     Inr (Tag (KNum 20) str [''transactionReference'' \<mapsto> VString (take 16 (first_line str))] None) \<and>
   createTag (IdNumber 21) subId str =
     Inr (Tag (KNum 21) str [''relatedReference'' \<mapsto> VString (take 16 (first_line str))] None) \<and>
   createTag (IdNumber 25) subId str =
     Inr (Tag (KNum 25) str [''accountIdentification'' \<mapsto> VString (take 35 (first_line str))] None) \<and>
   createTag (IdString ''NS'') subId str =
     Inr (Tag (KStr ''NS'') str [''nonSwift'' \<mapsto> VString (first_line str)] None) \<and>
   createTag (IdNumber 86) subId str =
     Inr (Tag (KNum 86) str [''transactionDetails'' \<mapsto> VString (take 390 str)] None) \<and>
   createTag (IdString (int_toString n)) subId str = createTag (IdNumber n) subId str"
proof -
  have "createTag (IdNumber 20) subId str = new_Tag TagTransactionReferenceNumber str"
    by (rule createTag_numeric[where a = "CHR ''2''" and b = "CHR ''0''"]) (simp_all add: int_toString_small)
  moreover have "createTag (IdNumber 21) subId str = new_Tag TagRelatedReference str"
    by (rule createTag_numeric[where a = "CHR ''2''" and b = "CHR ''1''"]) (simp_all add: int_toString_small)
  moreover have "createTag (IdNumber 25) subId str = new_Tag TagAccountIdentification str"
    by (rule createTag_numeric[where a = "CHR ''2''" and b = "CHR ''5''"]) (simp_all add: int_toString_small)
  moreover have "createTag (IdNumber 86) subId str = new_Tag TagTransactionDetails str"
    by (rule createTag_numeric[where a = "CHR ''8''" and b = "CHR ''6''"]) (simp_all add: int_toString_small)
  ultimately show ?thesis
    by (simp add: new_Tag_simple createTag_NS createTag_IdString_digits)
qed

theorem simple_tags_truncation_counterexample:
  "createTag (IdNumber 20) [] [CHR ''a'', CHR ''b'', CHR 0x0A, CHR ''c'', CHR ''d''] =
     Inr (Tag (KNum 20) [CHR ''a'', CHR ''b'', CHR 0x0A, CHR ''c'', CHR ''d'']
            [''transactionReference'' \<mapsto> VString ''ab''] None) \<and>
   take 16 [CHR ''a'', CHR ''b'', CHR 0x0A, CHR ''c'', CHR ''d''] \<noteq> ''ab''"
proof -
  have "createTag (IdNumber 20) [] [CHR ''a'', CHR ''b'', CHR 0x0A, CHR ''c'', CHR ''d''] =
      new_Tag TagTransactionReferenceNumber [CHR ''a'', CHR ''b'', CHR 0x0A, CHR ''c'', CHR ''d'']"
    by (rule createTag_numeric[where a = "CHR ''2''" and b = "CHR ''0''"]) (simp_all add: int_toString_small)
  then show ?thesis by (simp add: new_Tag_simple first_line_def)
qed

section \<open>The claim about the message block\<close>

lemma createTag_MB: "createTag (IdString ''MB'') subId str = new_Tag TagMessageBlock str"
proof -
  have nan: "isNaN ''MB''" by code_simp
  then have t: "tagId_of (IdString ''MB'') = TagStr ''MB''" by (simp add: tagId_of_def)
  then have f: "fullTagId_of (IdString ''MB'') subId = ''MB'' @ subId"
    by (simp add: fullTagId_of_def tagId_toString_def)
  have g: "tagMap_get (tagId_of (IdString ''MB'')) = Some TagMessageBlock"
    by (simp add: t tagMap_get_def tagId_key_def tagMap_iff)
  show ?thesis
  proof (cases "tagMap (KStr (fullTagId_of (IdString ''MB'') subId))")
    case None
    with g show ?thesis by (simp add: createTag_def tagClass_of_def)
  next
    case (Some c)
    then have "ID c = KStr (''MB'' @ subId)" by (simp add: tagMap_iff f)
    then have "c = TagMessageBlock" by (cases c) auto
    with Some show ?thesis by (simp add: createTag_def tagClass_of_def)
  qed
qed

lemmas regex_eval =
  exec_def PATTERN_MessageBlock_def MessageBlock_content_def PATTERN_StatementLine_def
  StatementLine_rest_def StatementLine_tail_def PATTERN_Balance_def times_def digit_def upper_def
  dot_def Chr_def
  in_class_def advance_def set_cap_def


lemma rmatch_Grp_sound:
  assumes "rmatch (Grp n r) k s = Some t"
  shows "\<exists>s'. k (set_cap n (take (pos s' - pos s) (rest s)) s') = Some t \<and> extends s s' \<and>
    (\<forall>m. m \<notin> grps r \<longrightarrow> caps s' m = caps s m)"
  using rmatch_sound[of r "\<lambda>s'. k (set_cap n (take (pos s' - pos s) (rest s)) s')" s t] assms
  by simp

lemma grps_abbrevs [simp]: "grps (Chr c) = {}" "grps (times cc lo hi) = {}"
  by (simp_all add: Chr_def times_def)

lemma in_class_digit: "in_class digit c = is_digit c"
  by (simp add: in_class_def digit_def is_digit_def)

lemma MessageBlock_expand:
  "rmatch (Grp 0 PATTERN_MessageBlock) Some (MState i cs (\<lambda>n. None)) =
    (if i = 0 \<and> take 2 cs = ''-}''
     then Some (MState 2 (drop 2 cs) ((\<lambda>n. None)(1 := Some ''-}'', 0 := Some ''-}'')))
     else rmatch (Grp 2 (Seq (Chr (CHR ''{''))
            (Seq (Grp 3 (Cls digit)) (Seq (Chr (CHR '':'')) MessageBlock_content))))
          (\<lambda>s'. Some (set_cap 0 (take (pos s' - i) cs) s')) (MState i cs (\<lambda>n. None)))"
proof -
  let ?s0 = "MState i cs (\<lambda>n. None)"
  let ?k = "\<lambda>s'. Some (set_cap 0 (take (pos s' - i) cs) s')"
  let ?A = "Grp 1 (Seq Bol (Seq (Chr (CHR ''-'')) (Chr (CHR ''}''))))"
  have A: "rmatch ?A ?k ?s0 =
    (if i = 0 \<and> take 2 cs = ''-}''
     then Some (MState 2 (drop 2 cs) ((\<lambda>n. None)(1 := Some ''-}'', 0 := Some ''-}''))) else None)"
    by (cases cs; cases "tl cs")
       (auto simp: rmatch_Chr advance_def set_cap_def split: list.splits)
  have "rmatch (Grp 0 PATTERN_MessageBlock) Some ?s0 =
    (case rmatch ?A ?k ?s0 of Some r \<Rightarrow> Some r
     | None \<Rightarrow> rmatch (Grp 2 (Seq (Chr (CHR ''{''))
            (Seq (Grp 3 (Cls digit)) (Seq (Chr (CHR '':'')) MessageBlock_content)))) ?k ?s0)"
    by (simp add: PATTERN_MessageBlock_def)
  then show ?thesis unfolding A by simp
qed

lemma MessageBlock_match_cases:
  assumes "rmatch (Grp 0 PATTERN_MessageBlock) Some (MState i cs (\<lambda>n. None)) = Some s"
    and "\<not> (i = 0 \<and> take 2 cs = ''-}'')"
  shows "block_match (Match (pos s) (caps s))"
proof -
  let ?s0 = "MState i cs (\<lambda>n. None)"
  let ?k = "\<lambda>s'. Some (set_cap 0 (take (pos s' - i) cs) s')"
  let ?B = "Grp 2 (Seq (Chr (CHR ''{''))
        (Seq (Grp 3 (Cls digit)) (Seq (Chr (CHR '':'')) MessageBlock_content)))"
  from assms have B: "rmatch ?B ?k ?s0 = Some s" by (simp only: MessageBlock_expand if_False)
  then have "\<exists>d rest'. cs = CHR ''{'' # d # CHR '':'' # rest'"
    by (auto simp: rmatch_Chr advance_def set_cap_def split: list.splits if_splits)
  then obtain d rest' where cs: "cs = CHR ''{'' # d # CHR '':'' # rest'" by blast
  have Bx: "rmatch ?B ?k (MState i (CHR ''{'' # d # CHR '':'' # rest') (\<lambda>n. None)) =
    (if is_digit d
     then rmatch MessageBlock_content (\<lambda>s'. ?k (set_cap 2 (take (pos s' - i) cs) s'))
            (MState (Suc (Suc (Suc i))) rest' ((\<lambda>n. None)(3 := Some [d])))
     else None)"
    by (simp add: rmatch_Chr advance_def set_cap_def in_class_digit cs)
  from B have d: "is_digit d"
    and C: "rmatch MessageBlock_content
              (\<lambda>s'. ?k (set_cap 2 (take (pos s' - i) cs) s'))
              (MState (Suc (Suc (Suc i))) rest' ((\<lambda>n. None)(3 := Some [d]))) = Some s"
    unfolding cs[symmetric] Bx[unfolded cs[symmetric]] by (simp_all split: if_splits)
  let ?s3 = "MState (Suc (Suc (Suc i))) rest' ((\<lambda>n. None)(3 := Some [d]))"
  let ?k2 = "\<lambda>s'. ?k (set_cap 2 (take (pos s' - i) cs) s')"
  let ?X = "Alt Eol (Seq (Chr (CHR ''}''))
               (Ahead (Alt (Grp 6 (Seq (Chr (CHR ''{'')) (Seq (Cls digit) (Chr (CHR '':'')))))
                           Eol)))"
  from C have "rmatch (Grp 4 (Rep dot 0 None False)) (rmatch (Grp 5 ?X) ?k2) ?s3 = Some s"
    by (simp add: MessageBlock_content_def)
  from rmatch_Grp_sound[OF this] obtain s4 where
    s4: "rmatch (Grp 5 ?X) ?k2 (set_cap 4 (take (pos s4 - pos ?s3) (rest ?s3)) s4) = Some s"
    and e4: "extends ?s3 s4" and f4: "\<forall>m. m \<notin> grps (Rep dot 0 None False) \<longrightarrow> caps s4 m = caps ?s3 m"
    by blast
  let ?s4 = "set_cap 4 (take (pos s4 - pos ?s3) (rest ?s3)) s4"
  from rmatch_sound[OF s4] obtain s5 where
    s5: "?k2 s5 = Some s" and e5: "extends ?s4 s5"
    and f5: "\<forall>m. m \<notin> grps (Grp 5 ?X) \<longrightarrow> caps s5 m = caps ?s4 m"
    by blast
  from f4 have c3: "caps s4 3 = Some [d]" by simp
  from f5 have "caps s5 3 = caps ?s4 3" "caps s5 4 = caps ?s4 4" by simp_all
  with c3 have c5: "caps s5 3 = Some [d]" "caps s5 4 = Some (take (pos s4 - pos ?s3) (rest ?s3))"
    by (simp_all add: set_cap_def)
  from e4 e5 have p5: "i + 3 \<le> pos s5" by (auto simp: extends_def set_cap_def)
  from s5 have s: "s = set_cap 0 (take (pos s5 - i) cs) (set_cap 2 (take (pos s5 - i) cs) s5)"
    by (simp add: set_cap_def)
  from p5 have "take (pos s5 - i) cs \<noteq> ''-}''"
    by (cases "pos s5 - i") (auto simp: cs)
  with s c5 d show ?thesis
    by (auto simp: block_match_def set_cap_def)
qed

lemma exec_MessageBlock_EOB:
  assumes "take 2 str = ''-}''"
  shows "exec PATTERN_MessageBlock str 0 =
    Some (Match 2 ((\<lambda>n. None)(1 := Some ''-}'', 0 := Some ''-}'')))"
proof -
  from assms have "rmatch (Grp 0 PATTERN_MessageBlock) Some (MState 0 str (\<lambda>n. None)) =
    Some (MState 2 (drop 2 str) ((\<lambda>n. None)(1 := Some ''-}'', 0 := Some ''-}'')))"
    by (simp only: MessageBlock_expand) simp
  from scan_at_start[OF this] show ?thesis by (simp add: exec_def)
qed

lemma exec_MessageBlock_block:
  assumes "exec PATTERN_MessageBlock str i = Some m" and "\<not> (i = 0 \<and> take 2 str = ''-}'')"
  shows "block_match m"
proof -
  from assms have i: "i \<le> length str" and "scan PATTERN_MessageBlock i (drop i str) = Some m"
    by (auto simp: exec_def split: if_splits)
  from scan_sound[OF this(2)] obtain j s where
    j: "j \<le> length (drop i str)"
    and s: "rmatch (Grp 0 PATTERN_MessageBlock) Some (MState (i + j) (drop j (drop i str)) (\<lambda>n. None)) = Some s"
    and m: "m = Match (pos s) (caps s)" by blast
  from assms(2) have "\<not> (i + j = 0 \<and> take 2 (drop j (drop i str)) = ''-}'')" by auto
  from MessageBlock_match_cases[OF s this] m show ?thesis by simp
qed

lemma mb_loop_blocks:
  assumes "case mo of None \<Rightarrow> True | Some m \<Rightarrow> 0 < end_index m \<and> block_match m"
    and "string_fields f"
  shows "string_fields (mb_loop str mo f) \<and> mb_loop str mo f ''EOB'' = f ''EOB''"
  using assms
proof (induction str mo f rule: mb_loop.induct)
  case (1 str fields)
  then show ?case by simp
next
  case (2 str m fields)
  from "2.prems"(1) have pos: "0 < end_index m" and bm: "block_match m" by simp_all
  from bm obtain d body where d: "is_digit d" and g: "groups m 0 \<noteq> Some ''-}''"
    "groups m 3 = Some [d]" "groups m 4 = Some body"
    by (auto simp: block_match_def)
  let ?f = "fields([d] \<mapsto> VString body)"
  have sf: "string_fields ?f"
    using "2.prems"(2) d by (auto simp: string_fields_def)
  have nxt: "case exec PATTERN_MessageBlock str (end_index m) of None \<Rightarrow> True
      | Some m' \<Rightarrow> 0 < end_index m' \<and> block_match m'"
  proof (cases "exec PATTERN_MessageBlock str (end_index m)")
    case None
    then show ?thesis by simp
  next
    case (Some m')
    from exec_MessageBlock_block[OF Some] exec_MessageBlock_progress[OF Some] pos
    show ?thesis using Some by auto
  qed
  have step: "mb_loop str (Some m) fields = mb_loop str (exec PATTERN_MessageBlock str (end_index m)) ?f"
    using g by simp
  have "string_fields (mb_loop str (exec PATTERN_MessageBlock str (end_index m)) ?f) \<and>
    mb_loop str (exec PATTERN_MessageBlock str (end_index m)) ?f ''EOB'' = ?f ''EOB''"
    using "2.IH" nxt sf g by (simp add: fun_upd_def)
  then show ?case unfolding step by simp
qed

lemma new_Tag_MessageBlock:
  assumes "new_Tag TagMessageBlock str = Inr t"
  shows "fields t ''EOB'' = (if take 2 str = ''-}'' then Some (VString '''') else None) \<and>
    isStarting t = Some (fields t ''1'' \<noteq> None) \<and> string_fields (fields t) \<and>
    tag_id t = KStr ''MB'' \<and> tag_data t = str"
proof -
  from assms obtain m0 where m0: "exec PATTERN_MessageBlock str 0 = Some m0"
    and t: "t = Tag (KStr ''MB'') str (mb_loop str (Some m0) Map.empty)
          (Some (mb_loop str (Some m0) Map.empty ''1'' \<noteq> None \<and>
                 mb_loop str (Some m0) Map.empty ''1'' \<noteq> Some VUndefined))"
    by (auto simp: new_Tag_def MessageBlock_extractFields_def Let_def split: option.splits)
  have e: "string_fields Map.empty" by (simp add: string_fields_def)
  have main: "string_fields (mb_loop str (Some m0) Map.empty) \<and>
    mb_loop str (Some m0) Map.empty ''EOB'' =
      (if take 2 str = ''-}'' then Some (VString '''') else None)"
  proof (cases "take 2 str = ''-}''")
    case True
    from exec_MessageBlock_EOB[OF True] m0 have m: "m0 = Match 2 ((\<lambda>n. None)(1 := Some ''-}'', 0 := Some ''-}''))"
      by simp
    have nxt: "case exec PATTERN_MessageBlock str 2 of None \<Rightarrow> True
      | Some m' \<Rightarrow> 0 < end_index m' \<and> block_match m'"
    proof (cases "exec PATTERN_MessageBlock str 2")
      case None
      then show ?thesis by simp
    next
      case (Some m')
      from exec_MessageBlock_block[OF Some] exec_MessageBlock_progress[OF Some]
      show ?thesis using Some by auto
    qed
    have sf: "string_fields [''EOB'' \<mapsto> VString '''']" by (simp add: string_fields_def)
    have "mb_loop str (Some m0) Map.empty =
      mb_loop str (exec PATTERN_MessageBlock str 2) [''EOB'' \<mapsto> VString '''']"
      by (simp add: m)
    with mb_loop_blocks[OF nxt sf] True show ?thesis by simp
  next
    case False
    then have "\<not> (0 = (0::nat) \<and> take 2 str = ''-}'')" by simp
    from exec_MessageBlock_block[OF m0 this] exec_MessageBlock_progress[OF m0]
    have "case Some m0 of None \<Rightarrow> True | Some m \<Rightarrow> 0 < end_index m \<and> block_match m" by simp
    from mb_loop_blocks[OF this e] False show ?thesis by simp
  qed
  define F where "F = mb_loop str (Some m0) Map.empty"
  from main have sf: "string_fields F"
    and eob: "F ''EOB'' = (if take 2 str = ''-}'' then Some (VString '''') else None)"
    by (simp_all only: F_def)
  from sf have "F ''1'' \<noteq> Some VUndefined"
    by (auto simp: string_fields_def)
  with sf eob t[folded F_def] show ?thesis by simp
qed


lemma block_end_eval:
  "rmatch (Grp 5 (Alt Eol (Seq (Chr (CHR ''}''))
       (Ahead (Alt (Grp 6 (Seq (Chr (CHR ''{'')) (Seq (Cls digit) (Chr (CHR '':''))))) Eol))))) k s =
   (if block_closes (rest s)
    then k (MState (pos s + (if rest s = [] then 0 else 1)) (drop 1 (rest s))
             ((caps s)(6 := if opens_block (drop 1 (rest s)) then Some (take 3 (drop 1 (rest s)))
                            else caps s 6,
                       5 := Some (take 1 (rest s)))))
    else None)"
proof (cases s)
  case (MState p r c)
  show ?thesis
  proof (cases r)
    case Nil
    with MState show ?thesis by (simp add: set_cap_def rmatch_Chr split: option.splits)
  next
    case (Cons a r1)
    show ?thesis
    proof (cases r1 rule: opens_block.cases)
      case (1 x d y r2)
      with MState Cons show ?thesis
        by (simp add: rmatch_Chr advance_def set_cap_def in_class_digit fun_upd_twist split: option.splits)
    next
      assume "r1 = []"
      with MState Cons show ?thesis
        by (simp add: rmatch_Chr advance_def set_cap_def in_class_digit split: option.splits)
    next
      fix v assume "r1 = [v]"
      with MState Cons show ?thesis
        by (simp add: rmatch_Chr advance_def set_cap_def in_class_digit split: option.splits)
    next
      fix v va assume "r1 = [v, va]"
      with MState Cons show ?thesis
        by (simp add: rmatch_Chr advance_def set_cap_def in_class_digit split: option.splits)
    qed
  qed
qed

lemma block_content_prefix:
  "block_content cs = Some body \<Longrightarrow>
   body = take (length body) cs \<and> length body \<le> length cs \<and> block_closes (drop (length body) cs)"
proof (induction cs arbitrary: body)
  case Nil
  then show ?case by simp
next
  case (Cons c cs)
  show ?case
  proof (cases "block_closes (c # cs)")
    case True
    with Cons.prems show ?thesis by simp
  next
    case False
    with Cons.prems obtain b where b: "block_content cs = Some b" "body = c # b"
      by (auto split: if_splits)
    from Cons.IH[OF b(1)] b(2) show ?thesis by simp
  qed
qed

lemma in_class_dot: "in_class dot c \<longleftrightarrow> \<not> (c = CHR 0x0A \<or> c = CHR 0x0D)"
  by (simp add: in_class_def dot_def)

lemma rep_lazy_block:
  assumes "rest s = cs"
    and "\<And>n. n \<le> length cs \<Longrightarrow>
      (K (MState (pos s + n) (drop n cs) (caps s)) = None) = (\<not> block_closes (drop n cs))"
  shows "rep_lazy dot 0 None K cs s =
    (case block_content cs of
       None \<Rightarrow> None
     | Some body \<Rightarrow> K (MState (pos s + length body) (drop (length body) cs) (caps s)))"
  using assms
proof (induction cs arbitrary: s)
  case Nil
  then have "s = MState (pos s) [] (caps s)" by (cases s) simp
  then show ?case by simp
next
  case (Cons c cs)
  have s: "s = MState (pos s) (c # cs) (caps s)" using Cons.prems(1) by (cases s) simp
  from Cons.prems(2)[of 0] have k0: "(K s = None) = (\<not> block_closes (c # cs))"
    using s by simp
  show ?case
  proof (cases "block_closes (c # cs)")
    case True
    with k0 obtain r where r: "K s = Some r" by auto
    from True r s show ?thesis by simp
  next
    case False
    with k0 have n: "K s = None" by simp
    show ?thesis
    proof (cases "c = CHR 0x0A \<or> c = CHR 0x0D")
      case True
      with False have "block_content (c # cs) = None" by simp
      moreover from True n have "rep_lazy dot 0 None K (c # cs) s = None"
        by (simp add: in_class_dot)
      ultimately show ?thesis by simp
    next
      case nl: False
      have r: "rest (advance s) = cs" using Cons.prems(1) by (simp add: advance_def)
      have k: "(K (MState (pos (advance s) + n) (drop n cs) (caps (advance s))) = None) =
          (\<not> block_closes (drop n cs))" if "n \<le> length cs" for n
        using Cons.prems(2)[of "Suc n"] that by (simp add: advance_def)
      note IH = Cons.IH[OF r k]
      have "rep_lazy dot 0 None K (c # cs) s = rep_lazy dot 0 None K cs (advance s)"
        using n nl by (simp add: in_class_dot)
      also have "\<dots> = (case block_content cs of None \<Rightarrow> None
        | Some body \<Rightarrow> K (MState (pos (advance s) + length body) (drop (length body) cs)
            (caps (advance s))))"
        by (rule IH)
      also have "\<dots> = (case block_content (c # cs) of None \<Rightarrow> None
        | Some body \<Rightarrow> K (MState (pos s + length body) (drop (length body) (c # cs)) (caps s)))"
        using False nl
        by (cases "block_content cs") (simp_all add: advance_def del: block_closes.simps)
      finally show ?thesis .
    qed
  qed
qed

lemma MessageBlock_at:
  assumes "\<not> (i = 0 \<and> take 2 cs = ''-}'')"
  shows "case block_at cs of
      None \<Rightarrow> rmatch (Grp 0 PATTERN_MessageBlock) Some (MState i cs (\<lambda>n. None)) = None
    | Some (d, body, n) \<Rightarrow>
        (\<exists>s. rmatch (Grp 0 PATTERN_MessageBlock) Some (MState i cs (\<lambda>n. None)) = Some s \<and>
           pos s = i + n \<and> n \<le> length cs \<and> caps s 0 \<noteq> Some ''-}'' \<and>
           caps s 3 = Some [d] \<and> caps s 4 = Some body)"
proof -
  let ?s0 = "MState i cs (\<lambda>n. None)"
  let ?k = "\<lambda>s'. Some (set_cap 0 (take (pos s' - i) cs) s')"
  let ?X = "Alt Eol (Seq (Chr (CHR ''}''))
               (Ahead (Alt (Grp 6 (Seq (Chr (CHR ''{'')) (Seq (Cls digit) (Chr (CHR '':'')))))
                           Eol)))"
  let ?B = "Grp 2 (Seq (Chr (CHR ''{''))
        (Seq (Grp 3 (Cls digit)) (Seq (Chr (CHR '':'')) MessageBlock_content)))"
  from assms have B: "rmatch (Grp 0 PATTERN_MessageBlock) Some ?s0 = rmatch ?B ?k ?s0"
    by (simp only: MessageBlock_expand if_False)
  show ?thesis
  proof (cases cs rule: block_at.cases)
    case (1 a d b r)
    show ?thesis
    proof (cases "a = CHR ''{'' \<and> is_digit d \<and> b = CHR '':''")
      case False
      then have "rmatch ?B ?k ?s0 = None"
        unfolding 1 by (auto simp: rmatch_Chr advance_def set_cap_def in_class_digit)
      with B have n: "rmatch (Grp 0 PATTERN_MessageBlock) Some ?s0 = None" by simp
      from False have "block_at cs = None" unfolding 1 by auto
      with n show ?thesis by simp
    next
      case True
      let ?c3 = "(\<lambda>n. None)(3 := Some [d])"
      let ?s3 = "MState (Suc (Suc (Suc i))) r ?c3"
      let ?k2 = "\<lambda>s'. ?k (set_cap 2 (take (pos s' - i) cs) s')"
      let ?K = "\<lambda>s'. rmatch (Grp 5 ?X) ?k2 (set_cap 4 (take (pos s' - pos ?s3) (rest ?s3)) s')"
      from True have "rmatch ?B ?k ?s0 = rmatch MessageBlock_content ?k2 ?s3"
        unfolding 1 by (simp add: rmatch_Chr advance_def set_cap_def in_class_digit)
      also have "\<dots> = rep_lazy dot 0 None ?K r ?s3"
        by (simp add: MessageBlock_content_def)
      finally have R: "rmatch (Grp 0 PATTERN_MessageBlock) Some ?s0 = rep_lazy dot 0 None ?K r ?s3"
        using B by simp
      have K: "?K (MState (pos ?s3 + n) (drop n r) (caps ?s3)) =
          (if block_closes (drop n r)
           then Some (MState (Suc (Suc (Suc i)) + n + (if drop n r = [] then 0 else 1))
                  (drop 1 (drop n r))
                  (?c3(4 := Some (take n r),
                       6 := if opens_block (drop 1 (drop n r)) then Some (take 3 (drop 1 (drop n r)))
                            else None,
                       5 := Some (take 1 (drop n r)),
                       2 := Some (take (3 + n + (if drop n r = [] then 0 else 1)) cs),
                       0 := Some (take (3 + n + (if drop n r = [] then 0 else 1)) cs))))
           else None)" for n
        by (simp only: block_end_eval) (simp add: set_cap_def)
      have KN: "(?K (MState (pos ?s3 + n) (drop n r) (caps ?s3)) = None) = (\<not> block_closes (drop n r))"
        for n
        unfolding K by simp
      have L: "rep_lazy dot 0 None ?K r ?s3 =
        (case block_content r of
           None \<Rightarrow> None
         | Some body \<Rightarrow> ?K (MState (pos ?s3 + length body) (drop (length body) r) (caps ?s3)))"
      proof (rule rep_lazy_block)
        show "rest ?s3 = r" by simp
      next
        fix n
        show "(?K (MState (pos ?s3 + n) (drop n r) (caps ?s3)) = None) =
          (\<not> block_closes (drop n r))"
          by (rule KN)
      qed
      show ?thesis
      proof (cases "block_content r")
        case None
        with True R L show ?thesis unfolding 1 by simp
      next
        case (Some body)
        from block_content_prefix[OF Some] have p: "body = take (length body) r"
          "length body \<le> length r" "block_closes (drop (length body) r)" by simp_all
        let ?e = "if drop (length body) r = [] then 0 else 1 :: nat"
        have e: "?e = (if length body = length r then 0 else 1)" using p(2) by auto
        have le: "3 + length body + ?e \<le> length cs"
          using p(2) unfolding 1 by (cases "length body < length r") auto
        have z: "take (3 + length body + ?e) cs \<noteq> ''-}''"
          unfolding 1 using True by (simp add: take_Cons')
        from R L Some have "rmatch (Grp 0 PATTERN_MessageBlock) Some ?s0 =
            ?K (MState (pos ?s3 + length body) (drop (length body) r) (caps ?s3))"
          by simp
        also note K[of "length body"]
        finally have "\<exists>s. rmatch (Grp 0 PATTERN_MessageBlock) Some ?s0 = Some s \<and>
            pos s = i + (3 + length body + ?e) \<and> caps s 0 = Some (take (3 + length body + ?e) cs) \<and>
            caps s 3 = Some [d] \<and> caps s 4 = Some (take (length body) r)"
          using p(3) by simp
        with z le p(1) have "\<exists>s. rmatch (Grp 0 PATTERN_MessageBlock) Some ?s0 = Some s \<and>
            pos s = i + (3 + length body + ?e) \<and> 3 + length body + ?e \<le> length cs \<and>
            caps s 0 \<noteq> Some ''-}'' \<and> caps s 3 = Some [d] \<and> caps s 4 = Some body"
          by auto
        then show ?thesis using True Some unfolding 1 block_at.simps e by simp
      qed
    qed
  next
    assume "cs = []"
    then show ?thesis using B by (simp add: rmatch_Chr)
  next
    fix v assume "cs = [v]"
    then show ?thesis using B
      by (simp add: rmatch_Chr advance_def set_cap_def in_class_digit)
  next
    fix v va assume "cs = [v, va]"
    then show ?thesis using B
      by (simp add: rmatch_Chr advance_def set_cap_def in_class_digit)
  qed
qed

lemma scan_MessageBlock_skip:
  assumes "block_at (c # cs) = None" and "\<not> (i = 0 \<and> take 2 (c # cs) = ''-}'')"
  shows "scan PATTERN_MessageBlock i (c # cs) = scan PATTERN_MessageBlock (Suc i) cs"
  using MessageBlock_at[OF assms(2)] assms(1) by simp

lemma scan_MessageBlock_Nil: "scan PATTERN_MessageBlock i [] = None"
proof -
  have "\<not> (i = 0 \<and> take 2 ([] :: string) = ''-}'')" by simp
  from MessageBlock_at[OF this] show ?thesis by simp
qed

lemma scan_MessageBlock_block:
  assumes "block_at cs = Some (d, body, n)"
  shows "\<exists>m. scan PATTERN_MessageBlock i cs = Some m \<and> end_index m = i + n \<and> n \<le> length cs \<and>
    groups m 0 \<noteq> Some ''-}'' \<and> groups m 3 = Some [d] \<and> groups m 4 = Some body"
proof -
  from assms have "take 1 cs = ''{''"
    by (cases cs rule: block_at.cases) (auto split: if_splits)
  then have "\<not> (i = 0 \<and> take 2 cs = ''-}'')"
    by (cases cs) auto
  from MessageBlock_at[OF this] assms obtain s where
    s: "rmatch (Grp 0 PATTERN_MessageBlock) Some (MState i cs (\<lambda>n. None)) = Some s"
    and p: "pos s = i + n" "n \<le> length cs" "caps s 0 \<noteq> Some ''-}''" "caps s 3 = Some [d]"
      "caps s 4 = Some body"
    by auto
  from scan_at_start[OF s] p show ?thesis by simp
qed

lemma mb_loop_scan:
  assumes "i \<le> length str" and "drop i str = cs" and "0 < i \<or> take 2 str \<noteq> ''-}''"
  shows "mb_loop str (scan PATTERN_MessageBlock i cs) f = foldl store_block f (blocks_of cs) \<and>
    (scan PATTERN_MessageBlock i cs = None \<longleftrightarrow> blocks_of cs = [])"
  using assms
proof (induction cs arbitrary: i f rule: blocks_of.induct)
  case 1
  show ?case
    by (simp only: scan_MessageBlock_Nil blocks_of.simps mb_loop.simps foldl.simps simp_thms)
next
  case (2 c cs)
  have len: "length str - i = Suc (length cs)"
    using arg_cong[OF "2.prems"(2), of length] by simp
  have nt: "\<not> (i = 0 \<and> take 2 (c # cs) = ''-}'')"
  proof (cases "i = 0")
    case True
    with "2.prems"(2,3) show ?thesis by simp
  next
    case False
    then show ?thesis by simp
  qed
  show ?case
  proof (cases "block_at (c # cs)")
    case None
    have "drop (Suc i) str = tl (drop i str)" by (simp add: drop_Suc tl_drop)
    then have d: "drop (Suc i) str = cs" unfolding "2.prems"(2) by simp
    from len have le: "Suc i \<le> length str" by simp
    have sk: "scan PATTERN_MessageBlock i (c # cs) = scan PATTERN_MessageBlock (Suc i) cs"
      by (rule scan_MessageBlock_skip[OF None nt])
    have bl: "blocks_of (c # cs) = blocks_of cs"
      by (simp only: blocks_of.simps None option.case)
    have nx: "0 < Suc i \<or> take 2 str \<noteq> ''-}''" by simp
    from "2.IH"(1)[OF None le d nx] show ?thesis unfolding sk bl .
  next
    case (Some x)
    obtain d body n where x: "x = (d, body, n)" by (cases x)
    note at = Some[unfolded x]
    from scan_MessageBlock_block[OF at, of i] obtain m where
      m: "scan PATTERN_MessageBlock i (c # cs) = Some m" "end_index m = i + n"
        "n \<le> length (c # cs)" "groups m 0 \<noteq> Some ''-}''" "groups m 3 = Some [d]"
        "groups m 4 = Some body"
      by blast
    from block_at_length[OF at] have n: "0 < n" .
    from m(3) len have le: "i + n \<le> length str" by simp
    have "drop (i + n) str = drop n (drop i str)" by (simp add: add.commute)
    then have dr: "drop (i + n) str = drop n (c # cs)" unfolding "2.prems"(2) .
    from n have nx: "0 < i + n \<or> take 2 str \<noteq> ''-}''" by simp
    note IH = "2.IH"(2)[OF Some x[symmetric] refl le dr nx]
    from le have "exec PATTERN_MessageBlock str (i + n) =
        scan PATTERN_MessageBlock (i + n) (drop (i + n) str)"
      by (simp only: exec_def not_less[symmetric] if_False)
    then have e: "exec PATTERN_MessageBlock str (i + n) =
        scan PATTERN_MessageBlock (i + n) (drop n (c # cs))"
      unfolding dr .
    have lp: "mb_loop str (Some m) f =
        mb_loop str (scan PATTERN_MessageBlock (i + n) (drop n (c # cs))) (f([d] \<mapsto> VString body))"
      using m(4) by (simp only: mb_loop.simps m(2,5,6) e option.case if_False)
    have bl: "blocks_of (c # cs) = (d, body) # blocks_of (drop n (c # cs))"
      by (simp only: blocks_of.simps at option.case prod.case)
    have fo: "foldl store_block f ((d, body) # blocks_of (drop n (c # cs))) =
        foldl store_block (f([d] \<mapsto> VString body)) (blocks_of (drop n (c # cs)))"
      by (simp only: foldl.simps store_block.simps)
    from IH[of "f([d] \<mapsto> VString body)"] have
      "mb_loop str (Some m) f = foldl store_block f (blocks_of (c # cs))"
      unfolding lp bl fo by (rule conjunct1)
    then show ?thesis unfolding m(1) bl by simp
  qed
qed

lemma foldl_store_block:
  "foldl store_block f bs [d] =
     (case map_of (rev bs) d of None \<Rightarrow> f [d] | Some body \<Rightarrow> Some (VString body))"
  "length k \<noteq> 1 \<Longrightarrow> foldl store_block f bs k = f k"
proof -
  show "foldl store_block f bs [d] =
     (case map_of (rev bs) d of None \<Rightarrow> f [d] | Some body \<Rightarrow> Some (VString body))"
  proof (induction bs rule: rev_induct)
    case Nil
    then show ?case by simp
  next
    case (snoc b bs)
    then show ?case by (cases b) simp
  qed
  show "foldl store_block f bs k = f k" if "length k \<noteq> 1"
  proof (induction bs rule: rev_induct)
    case Nil
    then show ?case by simp
  next
    case (snoc b bs)
    with that show ?case by (cases b) auto
  qed
qed

lemma blocks_of_digit: "(d, body) \<in> set (blocks_of cs) \<Longrightarrow> is_digit d"
proof (induction cs rule: blocks_of.induct)
  case 1
  then show ?case by simp
next
  case (2 c cs)
  show ?case
  proof (cases "block_at (c # cs)")
    case None
    with 2 show ?thesis by simp
  next
    case (Some x)
    obtain d' body' n where x: "x = (d', body', n)" by (cases x)
    from Some x have "is_digit d'"
      by (cases "c # cs" rule: block_at.cases) (auto split: if_splits)
    with "2.IH"(2)[OF Some x[symmetric] refl] "2.prems" Some x show ?thesis by auto
  qed
qed

lemma new_Tag_MessageBlock_blocks:
  "new_Tag TagMessageBlock str =
     (if take 2 str \<noteq> ''-}'' \<and> mb_blocks str = [] then Inl (CannotParseTag (KStr ''MB'') str)
      else Inr (Tag (KStr ''MB'') str (mb_fields str)
             (Some (CHR ''1'' \<in> fst ` set (mb_blocks str)))))"
proof -
  have st: "(foldl store_block f bs ''1'' \<noteq> None \<and> foldl store_block f bs ''1'' \<noteq> Some VUndefined) =
      (CHR ''1'' \<in> fst ` set bs)" if "f ''1'' = None" for f bs
  proof (cases "map_of (rev bs) (CHR ''1'')")
    case None
    then have "CHR ''1'' \<notin> fst ` set bs" by (simp add: map_of_eq_None_iff)
    with None that show ?thesis by (simp add: foldl_store_block(1))
  next
    case (Some body)
    then have "CHR ''1'' \<in> fst ` set (rev bs)" by (metis map_of_eq_None_iff option.distinct(1))
    with Some show ?thesis by (simp add: foldl_store_block(1))
  qed
  show ?thesis
  proof (cases "take 2 str = ''-}''")
    case True
    then have le: "2 \<le> length str" by (cases str; cases "tl str") auto
    from exec_MessageBlock_EOB[OF True] have m0:
      "exec PATTERN_MessageBlock str 0 = Some (Match 2 ((\<lambda>n. None)(1 := Some ''-}'', 0 := Some ''-}'')))" .
    have e: "exec PATTERN_MessageBlock str 2 = scan PATTERN_MessageBlock 2 (drop 2 str)"
      using le by (simp add: exec_def)
    have "mb_loop str (Some (Match 2 ((\<lambda>n. None)(1 := Some ''-}'', 0 := Some ''-}'')))) Map.empty =
        mb_loop str (scan PATTERN_MessageBlock 2 (drop 2 str)) [''EOB'' \<mapsto> VString []]"
      using e by simp
    also have "\<dots> = foldl store_block [''EOB'' \<mapsto> VString []] (blocks_of (drop 2 str))"
      using mb_loop_scan[OF le refl, of "[''EOB'' \<mapsto> VString []]"] by simp
    finally have f: "mb_loop str (Some (Match 2 ((\<lambda>n. None)(1 := Some ''-}'', 0 := Some ''-}''))))
        Map.empty = mb_fields str"
      using True by (simp add: mb_fields_def mb_blocks_def)
    have "(mb_fields str ''1'' \<noteq> None \<and> mb_fields str ''1'' \<noteq> Some VUndefined) =
        (CHR ''1'' \<in> fst ` set (mb_blocks str))"
      using st[of "[''EOB'' \<mapsto> VString []]" "mb_blocks str"] True
      by (simp add: mb_fields_def)
    with m0 f True show ?thesis
      by (simp add: new_Tag_def MessageBlock_extractFields_def Let_def)
  next
    case False
    have le: "0 \<le> length str" by simp
    from False have c: "0 < (0::nat) \<or> take 2 str \<noteq> ''-}''" by simp
    have d: "drop 0 str = str" by simp
    note L = mb_loop_scan[OF le d c]
    have e: "exec PATTERN_MessageBlock str 0 = scan PATTERN_MessageBlock 0 str"
      by (simp add: exec_def)
    have b: "mb_blocks str = blocks_of str" using False by (simp add: mb_blocks_def)
    show ?thesis
    proof (cases "scan PATTERN_MessageBlock 0 str")
      case None
      with L[of Map.empty] e b False show ?thesis by (simp add: new_Tag_def)
    next
      case (Some m)
      with L[of Map.empty] have ne: "blocks_of str \<noteq> []"
        and f: "mb_loop str (Some m) Map.empty = mb_fields str"
        using False by (simp_all add: mb_fields_def mb_blocks_def)
      have "(mb_fields str ''1'' \<noteq> None \<and> mb_fields str ''1'' \<noteq> Some VUndefined) =
          (CHR ''1'' \<in> fst ` set (mb_blocks str))"
        using st[of Map.empty "mb_blocks str"] False by (simp add: mb_fields_def)
      with Some e f ne b False show ?thesis
        by (simp add: new_Tag_def MessageBlock_extractFields_def Let_def)
    qed
  qed
qed

text \<open>
  Claim C2.  The claim reads: the block-marker tag on \<open>{1:F01BANKXXXX}{2:abc}-}\<close> gives
  the fields 1: \<open>F01BANKXXXX\<close>, 2: \<open>abc\<close> and EOB, with \<open>isStarting\<close> true; and in general the
  rule scans the whole text repeatedly, sets EOB when a terminator \<open>-}\<close> is found, and sets
  \<open>isStarting\<close> iff a block numbered 1 was found.  The pattern's terminator is anchored
  (\<^verbatim>\<open>^-\}\<close>): it matches at the start of the text only, and a block's content runs up to
  a brace that is followed by a next block or by the end.  On the claim's input the
  second block is \<open>abc}-\<close> and there is no EOB.  What holds instead, for every text: the
  rule reads the whole text from left to right for its blocks (\<open>mb_blocks\<close>, after the
  terminator where the text starts with it); it fails, with the error of a text that
  cannot be parsed, exactly when the text does not start with \<open>-}\<close> and has no block;
  otherwise the field record is \<open>mb_fields\<close>: EOB (with the empty string) exactly when
  the text starts with \<open>-}\<close>, under each number the content of the last block of that
  number, and no other field; every number is a digit; and \<open>isStarting\<close> is true
  exactly when a block numbered 1 was found.
\<close>

theorem messageBlock_fields:
  "createTag (IdString ''MB'') subId str =
     (if take 2 str \<noteq> ''-}'' \<and> mb_blocks str = [] then Inl (CannotParseTag (KStr ''MB'') str)
      else Inr (Tag (KStr ''MB'') str (mb_fields str)
             (Some (CHR ''1'' \<in> fst ` set (mb_blocks str))))) \<and>
   mb_fields str ''EOB'' = (if take 2 str = ''-}'' then Some (VString '''') else None) \<and>
   mb_fields str [d] = map_option VString (map_of (rev (mb_blocks str)) d) \<and>
   (k \<noteq> ''EOB'' \<and> length k \<noteq> 1 \<longrightarrow> mb_fields str k = None) \<and>
   (\<forall>b\<in>set (mb_blocks str). is_digit (fst b))"
proof (intro conjI impI ballI)
  show "createTag (IdString ''MB'') subId str =
     (if take 2 str \<noteq> ''-}'' \<and> mb_blocks str = [] then Inl (CannotParseTag (KStr ''MB'') str)
      else Inr (Tag (KStr ''MB'') str (mb_fields str)
             (Some (CHR ''1'' \<in> fst ` set (mb_blocks str)))))"
    by (simp only: createTag_MB new_Tag_MessageBlock_blocks)
next
  show "mb_fields str ''EOB'' = (if take 2 str = ''-}'' then Some (VString '''') else None)"
    by (simp add: mb_fields_def foldl_store_block(2))
next
  show "mb_fields str [d] = map_option VString (map_of (rev (mb_blocks str)) d)"
    by (simp add: mb_fields_def foldl_store_block(1) split: option.splits)
next
  assume "k \<noteq> ''EOB'' \<and> length k \<noteq> 1"
  then show "mb_fields str k = None"
    by (simp add: mb_fields_def foldl_store_block(2))
next
  fix b assume "b \<in> set (mb_blocks str)"
  then have "(fst b, snd b) \<in> set (blocks_of (if take 2 str = ''-}'' then drop 2 str else str))"
    by (simp only: mb_blocks_def prod.collapse)
  then show "is_digit (fst b)" by (rule blocks_of_digit)
qed

theorem messageBlock_fields_witness:
  "createTag (IdString ''MB'') [] ''{1:F01BANKXXXX}{2:abc}-}'' =
     Inr (Tag (KStr ''MB'') ''{1:F01BANKXXXX}{2:abc}-}''
            [''1'' \<mapsto> VString ''F01BANKXXXX'', ''2'' \<mapsto> VString ''abc}-''] (Some True)) \<and>
   mb_fields ''{1:F01BANKXXXX}{2:abc}-}'' ''EOB'' = None \<and>
   mb_fields ''{1:F01BANKXXXX}{2:abc}-}'' ''12'' = None \<and>
   createTag (IdString ''MB'') [] ''-}{4:x}{4:y}'' =
     Inr (Tag (KStr ''MB'') ''-}{4:x}{4:y}''
            [''EOB'' \<mapsto> VString '''', ''4'' \<mapsto> VString ''y''] (Some False)) \<and>
   createTag (IdString ''MB'') [] ''abc-}'' = Inl (CannotParseTag (KStr ''MB'') ''abc-}'')"
proof -
  have b: "mb_blocks ''{1:F01BANKXXXX}{2:abc}-}'' =
      [(CHR ''1'', ''F01BANKXXXX''), (CHR ''2'', ''abc}-'')]"
    "mb_blocks ''-}{4:x}{4:y}'' = [(CHR ''4'', ''x''), (CHR ''4'', ''y'')]"
    "mb_blocks ''abc-}'' = []"
    by (simp_all add: mb_blocks_def is_digit_def)
  from messageBlock_fields[of "[]" "''{1:F01BANKXXXX}{2:abc}-}''" "CHR ''1''" "''12''"]
    messageBlock_fields[of "[]" "''-}{4:x}{4:y}''" "CHR ''4''" "''12''"]
    messageBlock_fields[of "[]" "''abc-}''" "CHR ''1''" "''12''"]
  show ?thesis
    by (simp add: b mb_fields_def)
qed

theorem messageBlock_example_counterexample:
  "map_sum id (\<lambda>t. (fields t ''1'', fields t ''2'', fields t ''EOB'', isStarting t))
     (createTag (IdString ''MB'') [] ''{1:F01BANKXXXX}{2:abc}-}'') =
   Inr (Some (VString ''F01BANKXXXX''), Some (VString ''abc}-''), None, Some True)"
  by (simp add: createTag_MB new_Tag_def MessageBlock_extractFields_def regex_eval)

section \<open>The claim about the statement line\<close>

lemma option_case_id: "(case x of None \<Rightarrow> None | Some r \<Rightarrow> Some r) = x"
  by (cases x) auto

lemma rep_greedy_exact:
  "rest s = cs \<Longrightarrow>
   rep_greedy cc n (Some n) k cs s =
     (if n \<le> length cs \<and> list_all (in_class cc) (take n cs)
      then k (MState (pos s + n) (drop n cs) (caps s)) else None)"
proof (induction n arbitrary: cs s)
  case 0
  then show ?case by (cases s; cases cs) simp_all
next
  case (Suc n)
  show ?case
  proof (cases cs)
    case Nil
    then show ?thesis by simp
  next
    case (Cons c cs')
    have r: "rest (advance s) = cs'" using Suc.prems Cons by (simp add: advance_def)
    have adv: "pos (advance s) = Suc (pos s)" "caps (advance s) = caps s"
      by (simp_all add: advance_def)
    note IH = Suc.IH[OF r, unfolded adv]
    show ?thesis
      unfolding Cons by (simp add: option_case_id IH)
  qed
qed

lemma rmatch_Grp_times_exact:
  "rmatch (Grp n (times cc m m)) k s =
     (if m \<le> length (rest s) \<and> list_all (in_class cc) (take m (rest s))
      then k (MState (pos s + m) (drop m (rest s)) ((caps s)(n := Some (take m (rest s)))))
      else None)"
  by (simp add: times_def rep_greedy_exact set_cap_def)

lemma scan_Bol:
  assumes "scan (Seq Bol r) i cs = Some m"
  shows "i = 0 \<and> (\<exists>s. rmatch (Grp 0 (Seq Bol r)) Some (MState 0 cs (\<lambda>n. None)) = Some s \<and>
    m = Match (pos s) (caps s))"
proof -
  from scan_sound[OF assms] obtain j s where
    s: "rmatch (Grp 0 (Seq Bol r)) Some (MState (i + j) (drop j cs) (\<lambda>n. None)) = Some s"
    and m: "m = Match (pos s) (caps s)" by blast
  from s have "i + j = 0" by (simp split: if_splits)
  with s m show ?thesis by auto
qed

lemma StatementLine_rest_digit:
  assumes "rest s = d # ds" and "is_digit d"
  shows "rmatch StatementLine_rest k s = None"
proof -
  from is_digit_cases[OF assms(2)] have "d \<notin> set ''E|R''" "d \<notin> set ''DC''" by auto
  with assms(1) show ?thesis
    by (simp add: StatementLine_rest_def times_def in_class_def)
qed

lemma grps_StatementLine_tail: "grps StatementLine_tail = {8, 9, 10, 11, 12, 13, 14, 15}"
  by (auto simp: StatementLine_tail_def)

lemma StatementLine_rest_mark:
  assumes "rmatch StatementLine_rest (\<lambda>s'. Some (set_cap 0 (v s') s')) s = Some t"
  shows "(\<exists>n. caps t 7 = Some (take n (rest s))) \<and> (\<forall>i. 0 < i \<and> i < 7 \<longrightarrow> caps t i = caps s i)"
proof -
  let ?k = "\<lambda>s'. Some (set_cap 0 (v s') s')"
  let ?M = "Seq (times (OneOf ''E|R'') 0 1) (Cls (OneOf ''DC''))"
  note g = grps_StatementLine_tail
  from assms have "rmatch (Grp 7 ?M) (rmatch StatementLine_tail ?k) s = Some t"
    by (simp add: StatementLine_rest_def)
  from rmatch_Grp_sound[OF this] obtain s7 where
    s7: "rmatch StatementLine_tail ?k (set_cap 7 (take (pos s7 - pos s) (rest s)) s7) = Some t"
    and f7: "\<forall>m. m \<notin> grps ?M \<longrightarrow> caps s7 m = caps s m" by blast
  from rmatch_sound[OF s7] obtain s8 where
    s8: "?k s8 = Some t"
    and f8: "\<forall>m. m \<notin> grps StatementLine_tail \<longrightarrow>
      caps s8 m = caps (set_cap 7 (take (pos s7 - pos s) (rest s)) s7) m"
    by blast
  from s8 have t: "t = set_cap 0 (v s8) s8" by simp
  from f8 g have "caps s8 7 = Some (take (pos s7 - pos s) (rest s))"
    by (simp add: set_cap_def)
  moreover from f8 f7 g have "\<forall>i. 0 < i \<and> i < 7 \<longrightarrow> caps s8 i = caps s i"
    by (auto simp: set_cap_def)
  ultimately show ?thesis unfolding t by (auto simp: set_cap_def)
qed

lemma take_4_split: "take 4 xs = take 2 xs @ take 2 (drop 2 xs)"
proof -
  have "take (2 + 2) xs = take 2 xs @ take 2 (drop 2 xs)" by (rule take_add)
  then show ?thesis by simp
qed

lemma entry_date_exact:
  "rmatch (Grp 4 (Seq (Grp 5 (times digit 2 2)) (Grp 6 (times digit 2 2)))) K
     (MState 6 (drop 6 str) c) =
   (if has_entry_date str
    then K (MState 10 (drop 10 str)
              (c(5 := Some (take 2 (drop 6 str)), 6 := Some (take 2 (drop 8 str)),
                 4 := Some (take 4 (drop 6 str)))))
    else None)"
proof -
  have a: "has_entry_date str \<longleftrightarrow>
      2 \<le> length (drop 6 str) \<and> list_all (in_class digit) (take 2 (drop 6 str)) \<and>
      2 \<le> length (drop 8 str) \<and> list_all (in_class digit) (take 2 (drop 8 str))"
    unfolding has_entry_date_def take_4_split[of "drop 6 str"] in_class_digit[abs_def]
    by auto
  have "rmatch (Grp 4 (Seq (Grp 5 (times digit 2 2)) (Grp 6 (times digit 2 2)))) K
     (MState 6 (drop 6 str) c) =
    rmatch (Grp 5 (times digit 2 2))
      (rmatch (Grp 6 (times digit 2 2))
        (\<lambda>s'. K (set_cap 4 (take (pos s' - 6) (drop 6 str)) s')))
      (MState 6 (drop 6 str) c)"
    by (simp only: rmatch.simps(6) rmatch.simps(9)[where n = 4] mstate.sel)
  also have "\<dots> = (if has_entry_date str
    then K (MState 10 (drop 10 str)
              (c(5 := Some (take 2 (drop 6 str)), 6 := Some (take 2 (drop 8 str)),
                 4 := Some (take 4 (drop 6 str)))))
    else None)"
    unfolding a by (simp only: rmatch_Grp_times_exact) (simp add: set_cap_def)
  finally show ?thesis .
qed

lemma exec_StatementLine:
  assumes "exec PATTERN_StatementLine str 0 = Some m"
  shows "groups m 1 = Some (take 2 str) \<and> groups m 2 = Some (take 2 (drop 2 str)) \<and>
    groups m 3 = Some (take 2 (drop 4 str)) \<and>
    (if has_entry_date str
     then groups m 4 = Some (take 4 (drop 6 str)) \<and> groups m 5 = Some (take 2 (drop 6 str)) \<and>
          groups m 6 = Some (take 2 (drop 8 str)) \<and>
          (\<exists>n. groups m 7 = Some (take n (drop 10 str)))
     else groups m 4 = None \<and> (\<exists>n. groups m 7 = Some (take n (drop 6 str))))"
proof -
  let ?R = StatementLine_rest
  let ?E = "Grp 4 (Seq (Grp 5 (times digit 2 2)) (Grp 6 (times digit 2 2)))"
  let ?k0 = "\<lambda>s'. Some (set_cap 0 (take (pos s' - 0) str) s')"
  let ?G = "\<lambda>n. Grp n (times digit 2 2)"
  let ?c3 = "(\<lambda>n. None)(1 := Some (take 2 str), 2 := Some (take 2 (drop 2 str)),
                3 := Some (take 2 (drop 4 str)))"
  let ?s6 = "MState 6 (drop 6 str) ?c3"
  let ?s10 = "MState 10 (drop 10 str) (?c3(5 := Some (take 2 (drop 6 str)),
                6 := Some (take 2 (drop 8 str)), 4 := Some (take 4 (drop 6 str))))"
  from assms have "scan PATTERN_StatementLine 0 str = Some m" by (simp add: exec_def)
  from scan_Bol[OF this[unfolded PATTERN_StatementLine_def]] obtain s where
    s: "rmatch (Grp 0 PATTERN_StatementLine) Some (MState 0 str (\<lambda>n. None)) = Some s"
    and m: "m = Match (pos s) (caps s)"
    by (auto simp only: PATTERN_StatementLine_def)
  let ?X3 = "Seq (Opt ?E) ?R"
  let ?X2 = "Seq (?G 3) ?X3"
  let ?X1 = "Seq (?G 2) ?X2"
  from s have "rmatch (?G 1) (rmatch ?X1 ?k0) (MState 0 str (\<lambda>n. None)) = Some s"
    by (simp only: PATTERN_StatementLine_def rmatch.simps(6) rmatch.simps(9)[where n = 0]
        rmatch.simps(2) mstate.sel simp_thms if_True)
  then have "rmatch ?X1 ?k0 (MState 2 (drop 2 str) ((\<lambda>n. None)(1 := Some (take 2 str)))) = Some s"
    by (simp only: rmatch_Grp_times_exact mstate.sel add_0 option.distinct split: if_splits)
  then have "rmatch (?G 2) (rmatch ?X2 ?k0)
      (MState 2 (drop 2 str) ((\<lambda>n. None)(1 := Some (take 2 str)))) = Some s"
    by (simp only: rmatch.simps(6))
  then have "rmatch ?X2 ?k0 (MState (2 + 2) (drop 2 (drop 2 str))
      ((\<lambda>n. None)(1 := Some (take 2 str), 2 := Some (take 2 (drop 2 str))))) = Some s"
    by (simp only: rmatch_Grp_times_exact mstate.sel option.distinct split: if_splits)
  then have "rmatch (?G 3) (rmatch ?X3 ?k0) (MState 4 (drop 4 str)
      ((\<lambda>n. None)(1 := Some (take 2 str), 2 := Some (take 2 (drop 2 str))))) = Some s"
    by (simp only: rmatch.simps(6) drop_drop) simp
  then have "rmatch ?X3 ?k0 (MState (4 + 2) (drop 2 (drop 4 str)) ?c3) = Some s"
    by (simp only: rmatch_Grp_times_exact mstate.sel option.distinct split: if_splits)
  then have o: "rmatch (Opt ?E) (rmatch ?R ?k0) ?s6 = Some s"
    by (simp only: rmatch.simps(6) drop_drop) simp
  have c6: "caps ?s6 1 = Some (take 2 str)" "caps ?s6 2 = Some (take 2 (drop 2 str))"
    "caps ?s6 3 = Some (take 2 (drop 4 str))" "caps ?s6 4 = None" "rest ?s6 = drop 6 str"
    by simp_all
  have c10: "caps ?s10 1 = Some (take 2 str)" "caps ?s10 2 = Some (take 2 (drop 2 str))"
    "caps ?s10 3 = Some (take 2 (drop 4 str))" "caps ?s10 4 = Some (take 4 (drop 6 str))"
    "caps ?s10 5 = Some (take 2 (drop 6 str))" "caps ?s10 6 = Some (take 2 (drop 8 str))"
    "rest ?s10 = drop 10 str"
    by simp_all
  from o have o': "(case rmatch ?E (rmatch ?R ?k0) ?s6 of Some r \<Rightarrow> Some r
      | None \<Rightarrow> rmatch ?R ?k0 ?s6) = Some s"
    by (simp only: rmatch.simps(8))
  show ?thesis
  proof (cases "has_entry_date str")
    case True
    then obtain d ds where d: "drop 6 str = d # ds" "is_digit d"
      by (cases "drop 6 str") (auto simp: has_entry_date_def)
    then have "rmatch ?R ?k0 ?s6 = None" by (intro StatementLine_rest_digit) auto
    with o' True have r: "rmatch ?R ?k0 ?s10 = Some s"
      by (simp only: entry_date_exact if_True split: option.splits)
    from StatementLine_rest_mark[OF r] have
      "\<exists>n. caps s 7 = Some (take n (rest ?s10))" "\<forall>i. 0 < i \<and> i < 7 \<longrightarrow> caps s i = caps ?s10 i"
      by blast+
    then have "\<exists>n. caps s 7 = Some (take n (drop 10 str))"
      "caps s 1 = caps ?s10 1" "caps s 2 = caps ?s10 2" "caps s 3 = caps ?s10 3"
      "caps s 4 = caps ?s10 4" "caps s 5 = caps ?s10 5" "caps s 6 = caps ?s10 6"
      unfolding c10(7) by simp_all
    with True m show ?thesis unfolding c10 by simp
  next
    case False
    with o' have r: "rmatch ?R ?k0 ?s6 = Some s"
      by (simp only: entry_date_exact if_False option.case)
    from StatementLine_rest_mark[OF r] have
      "\<exists>n. caps s 7 = Some (take n (rest ?s6))" "\<forall>i. 0 < i \<and> i < 7 \<longrightarrow> caps s i = caps ?s6 i"
      by blast+
    then have "\<exists>n. caps s 7 = Some (take n (drop 6 str))"
      "caps s 1 = caps ?s6 1" "caps s 2 = caps ?s6 2" "caps s 3 = caps ?s6 3"
      "caps s 4 = caps ?s6 4"
      unfolding c6(5) by simp_all
    with False m show ?thesis unfolding c6 by simp
  qed
qed

lemma int_toString_61: "int_toString 61 = ''61''"
  by (simp add: int_toString_def)

lemma new_Tag_StatementLine:
  assumes "new_Tag TagStatementLine str = Inr t"
  obtains m a where "exec PATTERN_StatementLine str 0 = Some m"
    and "amount_of_groups (groups m 7) (groups m 9) = Inr a"
    and "StatementLine_extractFields m = Inr (fields t)"
proof -
  from assms obtain m where m: "exec PATTERN_StatementLine str 0 = Some m"
    by (auto simp: new_Tag_def split: option.splits)
  with assms obtain f where f: "StatementLine_extractFields m = Inr f" and t: "fields t = f"
    by (cases "StatementLine_extractFields m") (auto simp: new_Tag_def)
  then obtain a where "amount_of_groups (groups m 7) (groups m 9) = Inr a"
    by (cases "amount_of_groups (groups m 7) (groups m 9)")
      (auto simp: StatementLine_extractFields_def)
  with m f t that show thesis by simp
qed

lemma StatementLine_examples:
  "\<exists>t. createTag (IdNumber 61) [] ''2301010102RCN1,5NTRF//B'' = Inr t"
  "\<exists>t. createTag (IdNumber 61) [] ''230101D100,00NTRFref'' = Inr t"
proof -
  have n: "createTag (IdNumber 61) [] str = new_Tag TagStatementLine str" for str
    by (rule createTag_numeric[where a = "CHR ''6''" and b = "CHR ''1''"])
      (simp_all add: int_toString_61)
  have a: "amount_result ''1,5'' True = Inr (Big True (3 / 2))"
    "amount_result ''100,00'' True = Inr (Big True 100)"
    by code_simp+
  have "\<exists>m. exec PATTERN_StatementLine ''2301010102RCN1,5NTRF//B'' 0 = Some m \<and>
      groups m 7 = Some ''RC'' \<and> groups m 9 = Some ''1,5''"
    by (simp add: regex_eval)
  then show "\<exists>t. createTag (IdNumber 61) [] ''2301010102RCN1,5NTRF//B'' = Inr t"
    by (auto simp: n new_Tag_def StatementLine_extractFields_def amount_of_groups_def
        BankAmount_parse_RC a)
  have "\<exists>m. exec PATTERN_StatementLine ''230101D100,00NTRFref'' 0 = Some m \<and>
      groups m 7 = Some ''D'' \<and> groups m 9 = Some ''100,00''"
    by (simp add: regex_eval)
  then show "\<exists>t. createTag (IdNumber 61) [] ''230101D100,00NTRFref'' = Inr t"
    by (auto simp: n new_Tag_def StatementLine_extractFields_def amount_of_groups_def
        BankAmount_parse_D a)
qed

text \<open>
  Claim C4.  A statement line (tag 61) from which a tag is made matched the pattern with
  some match \<open>m\<close>.  The optional group of the entry date took part in the match exactly
  when the four characters after the date are digits.  Where it took no part, the field
  \<open>entryDate\<close> is the empty string; where it did, \<open>entryDate\<close> is the date parsed from the
  two digits of the year of the line's own date (the first two characters, the year of
  the field \<open>date\<close> as well) with the month and the day of the entry date.  The field
  \<open>creditDebitIndicator\<close> is the text of the mark as matched, which stands right after the
  dates, and \<open>isReversal\<close> is true exactly when that mark begins with \<open>R\<close>.
\<close>

theorem statementLine_entryDate_isReversal:
  assumes "createTag (IdNumber 61) subId str = Inr t"
  shows "\<exists>m mark. exec PATTERN_StatementLine str 0 = Some m \<and>
    (groups m 4 = None \<longleftrightarrow> \<not> has_entry_date str) \<and>
    fields t ''entryDate'' =
      Some (if groups m 4 = None then VString ''''
            else VDate (BankDate_parse (take 2 str) (take 2 (drop 6 str)) (take 2 (drop 8 str)))) \<and>
    fields t ''date'' =
      Some (VDate (BankDate_parse (take 2 str) (take 2 (drop 2 str)) (take 2 (drop 4 str)))) \<and>
    groups m 7 = Some mark \<and>
    mark = take (length mark) (drop (if has_entry_date str then 10 else 6) str) \<and>
    fields t ''creditDebitIndicator'' = Some (VString mark) \<and>
    fields t ''isReversal'' = Some (VBool (take 1 mark = ''R''))"
proof -
  have "createTag (IdNumber 61) subId str = new_Tag TagStatementLine str"
    by (rule createTag_numeric[where a = "CHR ''6''" and b = "CHR ''1''"])
      (simp_all add: int_toString_61)
  with assms have "new_Tag TagStatementLine str = Inr t" by simp
  then obtain m a where m: "exec PATTERN_StatementLine str 0 = Some m"
    and a: "amount_of_groups (groups m 7) (groups m 9) = Inr a"
    and f: "StatementLine_extractFields m = Inr (fields t)"
    by (rule new_Tag_StatementLine)
  from f have ft: "fields t = projr (StatementLine_extractFields m)" by simp
  have fields: "fields t ''entryDate'' =
      Some (case groups m 4 of None \<Rightarrow> VString ''''
            | Some e \<Rightarrow> if e = '''' then VString ''''
                else date_of_groups (groups m 1) (groups m 5) (groups m 6))"
    "fields t ''date'' = Some (date_of_groups (groups m 1) (groups m 2) (groups m 3))"
    "fields t ''creditDebitIndicator'' = Some (group_value (groups m 7))"
    "fields t ''isReversal'' =
      Some (VBool (case groups m 7 of Some (c # cs) \<Rightarrow> c = CHR ''R'' | _ \<Rightarrow> False))"
    by (simp_all add: ft StatementLine_extractFields_def a)
  note g = exec_StatementLine[OF m]
  let ?k = "if has_entry_date str then 10 else 6 :: nat"
  from g obtain n where n: "groups m 7 = Some (take n (drop ?k str))"
    by (auto split: if_splits)
  define mark where "mark = take n (drop ?k str)"
  have pre: "mark = take (length mark) (drop ?k str)"
    unfolding mark_def by (simp add: min_def)
  have rev: "(case mark of c # cs \<Rightarrow> c = CHR ''R'' | _ \<Rightarrow> False) = (take 1 mark = ''R'')"
    by (cases mark) auto
  have g4: "groups m 4 = None \<longleftrightarrow> \<not> has_entry_date str"
    using g by (auto split: if_splits)
  have e: "fields t ''entryDate'' =
      Some (if groups m 4 = None then VString ''''
            else VDate (BankDate_parse (take 2 str) (take 2 (drop 6 str)) (take 2 (drop 8 str))))"
  proof (cases "has_entry_date str")
    case True
    then have "10 \<le> length str" by (simp add: has_entry_date_def)
    then have "4 \<le> length (drop 6 str)" by simp
    then have "take 4 (drop 6 str) \<noteq> []" by (cases "drop 6 str") auto
    with True g show ?thesis
      by (simp add: fields(1) date_of_groups_def js_string_def)
  next
    case False
    with g show ?thesis by (simp add: fields(1))
  qed
  have d: "fields t ''date'' =
      Some (VDate (BankDate_parse (take 2 str) (take 2 (drop 2 str)) (take 2 (drop 4 str))))"
    using g by (simp add: fields(2) date_of_groups_def js_string_def)
  have c: "fields t ''creditDebitIndicator'' = Some (VString mark)"
    by (simp add: fields(3) n group_value_def mark_def)
  have r: "fields t ''isReversal'' = Some (VBool (take 1 mark = ''R''))"
    using rev by (simp add: fields(4) n mark_def)
  from n have n': "groups m 7 = Some mark" by (simp add: mark_def)
  show ?thesis
    by (intro exI[of _ m] exI[of _ mark] conjI) (fact m g4 e d n' pre c r)+
qed

theorem statementLine_entryDate_isReversal_witness:
  "(\<exists>t. createTag (IdNumber 61) [] ''2301010102RCN1,5NTRF//B'' = Inr t \<and>
      fields t ''entryDate'' = Some (VDate (BankDate_parse ''23'' ''01'' ''02'')) \<and>
      fields t ''date'' = Some (VDate (BankDate_parse ''23'' ''01'' ''01'')) \<and>
      fields t ''creditDebitIndicator'' = Some (VString ''RC'') \<and>
      fields t ''isReversal'' = Some (VBool True)) \<and>
   (\<exists>t. createTag (IdNumber 61) [] ''230101D100,00NTRFref'' = Inr t \<and>
      fields t ''entryDate'' = Some (VString '''') \<and>
      fields t ''creditDebitIndicator'' = Some (VString ''D'') \<and>
      fields t ''isReversal'' = Some (VBool False))"
proof (intro conjI)
  have m1: "\<exists>m. exec PATTERN_StatementLine ''2301010102RCN1,5NTRF//B'' 0 = Some m \<and>
      groups m 4 = Some ''0102'' \<and> groups m 7 = Some ''RC''"
    by (simp add: regex_eval)
  from StatementLine_examples(1) obtain t where
    t: "createTag (IdNumber 61) [] ''2301010102RCN1,5NTRF//B'' = Inr t" ..
  from statementLine_entryDate_isReversal[OF t] m1
  have "fields t ''entryDate'' = Some (VDate (BankDate_parse ''23'' ''01'' ''02'')) \<and>
      fields t ''date'' = Some (VDate (BankDate_parse ''23'' ''01'' ''01'')) \<and>
      fields t ''creditDebitIndicator'' = Some (VString ''RC'') \<and>
      fields t ''isReversal'' = Some (VBool True)"
    by auto
  with t show "\<exists>t. createTag (IdNumber 61) [] ''2301010102RCN1,5NTRF//B'' = Inr t \<and>
      fields t ''entryDate'' = Some (VDate (BankDate_parse ''23'' ''01'' ''02'')) \<and>
      fields t ''date'' = Some (VDate (BankDate_parse ''23'' ''01'' ''01'')) \<and>
      fields t ''creditDebitIndicator'' = Some (VString ''RC'') \<and>
      fields t ''isReversal'' = Some (VBool True)"
    by blast
  have m2: "\<exists>m. exec PATTERN_StatementLine ''230101D100,00NTRFref'' 0 = Some m \<and>
      groups m 4 = None \<and> groups m 7 = Some ''D''"
    by (simp add: regex_eval)
  from StatementLine_examples(2) obtain u where
    u: "createTag (IdNumber 61) [] ''230101D100,00NTRFref'' = Inr u" ..
  from statementLine_entryDate_isReversal[OF u] m2
  have "fields u ''entryDate'' = Some (VString '''') \<and>
      fields u ''creditDebitIndicator'' = Some (VString ''D'') \<and>
      fields u ''isReversal'' = Some (VBool False)"
    by auto
  with u show "\<exists>t. createTag (IdNumber 61) [] ''230101D100,00NTRFref'' = Inr t \<and>
      fields t ''entryDate'' = Some (VString '''') \<and>
      fields t ''creditDebitIndicator'' = Some (VString ''D'') \<and>
      fields t ''isReversal'' = Some (VBool False)"
    by blast
qed

section \<open>The claim about failures\<close>

lemma rmatch_defined:
  "rmatch r k s = Some t \<Longrightarrow>
   \<exists>s'. k s' = Some t \<and> dom (caps s) \<union> sure r \<subseteq> dom (caps s')"
proof (induction r arbitrary: k s t)
  case Eps
  then show ?case by auto
next
  case Bol
  then show ?case by (auto split: if_splits)
next
  case Eol
  then show ?case by (auto split: if_splits)
next
  case (Cls cc)
  then show ?case
    by (auto split: list.splits if_splits intro!: exI[of _ "advance s"] simp: advance_def)
next
  case (Rep cc lo hi g)
  then show ?case
    by (cases g) (auto dest!: rep_greedy_sound rep_lazy_sound)
next
  case (Seq r1 r2)
  from Seq.prems have "rmatch r1 (rmatch r2 k) s = Some t" by simp
  from Seq.IH(1)[OF this] obtain s1 where
    s1: "rmatch r2 k s1 = Some t" "dom (caps s) \<union> sure r1 \<subseteq> dom (caps s1)" by blast
  from Seq.IH(2)[OF s1(1)] obtain s2 where
    s2: "k s2 = Some t" "dom (caps s1) \<union> sure r2 \<subseteq> dom (caps s2)" by blast
  from s1(2) s2(2) have "dom (caps s) \<union> sure (Seq r1 r2) \<subseteq> dom (caps s2)"
    unfolding sure.simps by blast
  with s2(1) show ?case by blast
next
  case (Alt r1 r2)
  show ?case
  proof (cases "rmatch r1 k s")
    case None
    with Alt.prems have "rmatch r2 k s = Some t" by simp
    from Alt.IH(2)[OF this] show ?thesis by auto
  next
    case (Some u)
    with Alt.prems have "rmatch r1 k s = Some t" by simp
    from Alt.IH(1)[OF this] show ?thesis by auto
  qed
next
  case (Opt r)
  show ?case
  proof (cases "rmatch r k s")
    case None
    with Opt.prems show ?thesis by auto
  next
    case (Some u)
    with Opt.prems have "rmatch r k s = Some t" by simp
    from Opt.IH[OF this] show ?thesis by auto
  qed
next
  case (Grp n r)
  from Grp.prems have "rmatch r (\<lambda>s'. k (set_cap n (take (pos s' - pos s) (rest s)) s')) s = Some t"
    by simp
  from Grp.IH[OF this] obtain s' where
    s': "k (set_cap n (take (pos s' - pos s) (rest s)) s') = Some t"
        "dom (caps s) \<union> sure r \<subseteq> dom (caps s')" by blast
  show ?case
    apply (rule exI[of _ "set_cap n (take (pos s' - pos s) (rest s)) s'"])
    using s' by (auto simp: set_cap_def)
next
  case (Ahead r)
  from Ahead.prems obtain s1 where
    s1: "rmatch r Some s = Some s1" "k (MState (pos s) (rest s) (caps s1)) = Some t"
    by (auto split: option.splits)
  from Ahead.IH[OF s1(1)] have "dom (caps s) \<union> sure r \<subseteq> dom (caps s1)" by auto
  with s1(2) show ?case
    by (intro exI[of _ "MState (pos s) (rest s) (caps s1)"]) auto
qed

lemma exec_defined:
  assumes "exec r str i = Some m" and "n \<in> sure r"
  shows "\<exists>v. groups m n = Some v"
proof -
  from assms(1) have "scan r i (drop i str) = Some m"
    by (simp add: exec_def split: if_splits)
  from scan_sound[OF this] obtain j s where
    s: "rmatch (Grp 0 r) Some (MState (i + j) (drop j (drop i str)) (\<lambda>n. None)) = Some s"
    and m: "m = Match (pos s) (caps s)" by blast
  from rmatch_defined[OF s] have "sure (Grp 0 r) \<subseteq> dom (caps s)" by auto
  with assms(2) m show ?thesis by auto
qed

lemma BankAmount_parse_error:
  "BankAmount_parse dcmark amountStr = Inl e \<Longrightarrow> field_value_error e"
  by (auto simp: BankAmount_parse_def Let_def split: if_splits)

lemma sure_patterns:
  "sure (PATTERN_upto n) = {1}"
  "sure PATTERN_NonSwift = {1}"
  "sure PATTERN_TransactionDetails = {1}"
  "sure PATTERN_StatementNumber = {1}"
  "sure PATTERN_FloorLimit = {1, 3}"
  "sure PATTERN_DateTimeIndication = {1, 2, 3}"
  "sure PATTERN_DateTimeIndication13 = {1, 2}"
  "sure PATTERN_Balance = {1, 2, 3, 4, 5, 6}"
  "sure PATTERN_NumberAndSumOfEntries = {1, 2, 3}"
  "sure PATTERN_StatementLine = {1, 2, 3, 7, 9, 10, 11}"
  by (auto simp: PATTERN_upto_def PATTERN_NonSwift_def PATTERN_TransactionDetails_def
      PATTERN_StatementNumber_def PATTERN_FloorLimit_def PATTERN_DateTimeIndication_def
      PATTERN_DateTimeIndication13_def PATTERN_Balance_def PATTERN_NumberAndSumOfEntries_def
      PATTERN_StatementLine_def StatementLine_rest_def StatementLine_tail_def times_def Chr_def)

lemma ran_upd_notin: "v \<notin> ran f \<Longrightarrow> x \<noteq> v \<Longrightarrow> v \<notin> ran (f(k \<mapsto> x))"
  by (auto simp: ran_def split: if_splits)

lemma never_undefined:
  "or_empty g \<noteq> VUndefined" "date_of_groups y mo d \<noteq> VUndefined"
  "bignumber_of_group g \<noteq> VUndefined" "forOffsetDateTime a b c \<noteq> VUndefined"
  "group_value (Some v) \<noteq> VUndefined"
  by (simp_all add: or_empty_def date_of_groups_def bignumber_of_group_def
      forOffsetDateTime_def group_value_def split: option.splits)

lemma amount_of_groups_error:
  assumes "amount_of_groups (Some dc) (Some a) = Inl e"
  shows "field_value_error e"
  using assms by (auto simp: amount_of_groups_def dest: BankAmount_parse_error)

lemma Balance_extractFields_error:
  assumes "Balance_extractFields m = Inl e"
    and "\<forall>n\<in>sure PATTERN_Balance. \<exists>v. groups m n = Some v"
  shows "field_value_error e"
proof -
  from assms(2) obtain dc a where g: "groups m 1 = Some dc" "groups m 6 = Some a"
    by (auto simp: sure_patterns)
  from assms(1) have "amount_of_groups (groups m 1) (groups m 6) = Inl e"
    by (cases "amount_of_groups (groups m 1) (groups m 6)")
      (simp_all add: Balance_extractFields_def)
  then show ?thesis unfolding g by (rule amount_of_groups_error)
qed

lemma StatementLine_extractFields_error:
  assumes "StatementLine_extractFields m = Inl e"
    and "\<forall>n\<in>sure PATTERN_StatementLine. \<exists>v. groups m n = Some v"
  shows "field_value_error e"
proof -
  from assms(2) obtain dc a where g: "groups m 7 = Some dc" "groups m 9 = Some a"
    by (auto simp: sure_patterns)
  from assms(1) have "amount_of_groups (groups m 7) (groups m 9) = Inl e"
    by (cases "amount_of_groups (groups m 7) (groups m 9)")
      (simp_all add: StatementLine_extractFields_def)
  then show ?thesis unfolding g by (rule amount_of_groups_error)
qed

lemma extractFields_error:
  assumes "extractFields c str m = Inl e"
    and "\<forall>n\<in>sure (PATTERN c). \<exists>v. groups m n = Some v"
  shows "field_value_error e"
proof (cases c)
  case TagOpeningBalance
  with assms show ?thesis
    by (cases "Balance_extractFields m") (auto dest: Balance_extractFields_error)
next
  case TagClosingBalance
  with assms show ?thesis
    by (cases "Balance_extractFields m") (auto dest: Balance_extractFields_error)
next
  case TagClosingAvailableBalance
  with assms show ?thesis
    by (cases "Balance_extractFields m") (auto dest: Balance_extractFields_error)
next
  case TagForwardAvailableBalance
  with assms show ?thesis
    by (cases "Balance_extractFields m") (auto dest: Balance_extractFields_error)
next
  case TagStatementLine
  with assms show ?thesis
    by (cases "StatementLine_extractFields m") (auto dest: StatementLine_extractFields_error)
qed (use assms in simp_all)

lemma Balance_extractFields_complete:
  assumes "Balance_extractFields m = Inr f"
    and "\<forall>n\<in>sure PATTERN_Balance. \<exists>v. groups m n = Some v"
  shows "dom f = {''date'', ''currency'', ''amount''} \<and> VUndefined \<notin> ran f"
proof -
  from assms(2) obtain v where g: "groups m 5 = Some v"
    by (auto simp: sure_patterns)
  from assms(1) obtain a where
    f: "f = [''date'' \<mapsto> date_of_groups (groups m 2) (groups m 3) (groups m 4),
             ''currency'' \<mapsto> group_value (groups m 5),
             ''amount'' \<mapsto> VAmount a]"
    by (cases "amount_of_groups (groups m 1) (groups m 6)")
      (auto simp: Balance_extractFields_def)
  have "dom f = {''date'', ''currency'', ''amount''}" unfolding f by auto
  moreover have "VUndefined \<notin> ran f"
    unfolding f g by (intro ran_upd_notin never_undefined) simp_all
  ultimately show ?thesis by simp
qed

lemma StatementLine_extractFields_complete:
  assumes "StatementLine_extractFields m = Inr f"
    and "\<forall>n\<in>sure PATTERN_StatementLine. \<exists>v. groups m n = Some v"
  shows "dom f = {''date'', ''entryDate'', ''fundsCode'', ''amount'', ''isReversal'',
           ''transactionType'', ''reference'', ''bankReference'', ''extraDetails'',
           ''creditDebitIndicator''} \<and> VUndefined \<notin> ran f"
proof -
  from assms(2) obtain v7 v10 v11 where
    g: "groups m 7 = Some v7" "groups m 10 = Some v10" "groups m 11 = Some v11"
    by (auto simp: sure_patterns)
  define entry where "entry = (case groups m 4 of None \<Rightarrow> VString ''''
    | Some e \<Rightarrow> if e = '''' then VString ''''
        else date_of_groups (groups m 1) (groups m 5) (groups m 6))"
  have e: "entry \<noteq> VUndefined"
    by (simp add: entry_def never_undefined split: option.splits)
  from assms(1) obtain a where
    f: "f = [''date'' \<mapsto> date_of_groups (groups m 1) (groups m 2) (groups m 3),
             ''entryDate'' \<mapsto> entry,
             ''fundsCode'' \<mapsto> or_empty (groups m 8),
             ''amount'' \<mapsto> VAmount a,
             ''isReversal'' \<mapsto>
               VBool (case groups m 7 of Some (c # cs) \<Rightarrow> c = CHR ''R'' | _ \<Rightarrow> False),
             ''transactionType'' \<mapsto> group_value (groups m 10),
             ''reference'' \<mapsto> group_value (groups m 11),
             ''bankReference'' \<mapsto> or_empty (groups m 13),
             ''extraDetails'' \<mapsto> or_empty (groups m 15),
             ''creditDebitIndicator'' \<mapsto> group_value (groups m 7)]"
    by (cases "amount_of_groups (groups m 7) (groups m 9)")
      (auto simp: StatementLine_extractFields_def entry_def)
  have "dom f = {''date'', ''entryDate'', ''fundsCode'', ''amount'', ''isReversal'',
           ''transactionType'', ''reference'', ''bankReference'', ''extraDetails'',
           ''creditDebitIndicator''}" unfolding f by auto
  moreover have "VUndefined \<notin> ran f"
    unfolding f g by (intro ran_upd_notin never_undefined e) simp_all
  ultimately show ?thesis by simp
qed

lemma extractFields_complete:
  assumes "extractFields c str m = Inr (f, st)"
    and "\<forall>n\<in>sure (PATTERN c). \<exists>v. groups m n = Some v"
    and "c \<noteq> TagMessageBlock"
  shows "complete_record c f"
proof (cases c)
  case TagOpeningBalance
  with assms(1) have s: "Balance_extractFields m = Inr f"
    by (cases "Balance_extractFields m") simp_all
  have g: "\<forall>n\<in>sure PATTERN_Balance. \<exists>v. groups m n = Some v"
    using assms(2) unfolding TagOpeningBalance PATTERN.simps .
  show ?thesis
    unfolding complete_record_def TagOpeningBalance spec_fields.simps option.case
    by (rule Balance_extractFields_complete[OF s g])
next
  case TagClosingBalance
  with assms(1) have s: "Balance_extractFields m = Inr f"
    by (cases "Balance_extractFields m") simp_all
  have g: "\<forall>n\<in>sure PATTERN_Balance. \<exists>v. groups m n = Some v"
    using assms(2) unfolding TagClosingBalance PATTERN.simps .
  show ?thesis
    unfolding complete_record_def TagClosingBalance spec_fields.simps option.case
    by (rule Balance_extractFields_complete[OF s g])
next
  case TagClosingAvailableBalance
  with assms(1) have s: "Balance_extractFields m = Inr f"
    by (cases "Balance_extractFields m") simp_all
  have g: "\<forall>n\<in>sure PATTERN_Balance. \<exists>v. groups m n = Some v"
    using assms(2) unfolding TagClosingAvailableBalance PATTERN.simps .
  show ?thesis
    unfolding complete_record_def TagClosingAvailableBalance spec_fields.simps option.case
    by (rule Balance_extractFields_complete[OF s g])
next
  case TagForwardAvailableBalance
  with assms(1) have s: "Balance_extractFields m = Inr f"
    by (cases "Balance_extractFields m") simp_all
  have g: "\<forall>n\<in>sure PATTERN_Balance. \<exists>v. groups m n = Some v"
    using assms(2) unfolding TagForwardAvailableBalance PATTERN.simps .
  show ?thesis
    unfolding complete_record_def TagForwardAvailableBalance spec_fields.simps option.case
    by (rule Balance_extractFields_complete[OF s g])
next
  case TagStatementLine
  with assms(1) have s: "StatementLine_extractFields m = Inr f"
    by (cases "StatementLine_extractFields m") simp_all
  have g: "\<forall>n\<in>sure PATTERN_StatementLine. \<exists>v. groups m n = Some v"
    using assms(2) unfolding TagStatementLine PATTERN.simps .
  show ?thesis
    unfolding complete_record_def TagStatementLine spec_fields.simps option.case
    by (rule StatementLine_extractFields_complete[OF s g])
next
  case TagMessageBlock
  with assms(3) show ?thesis by simp
qed (use assms(1,2) in \<open>auto simp: complete_record_def sure_patterns ran_def
      NumberAndSumOfEntries_extractFields_def group_value_def or_empty_def
      bignumber_of_group_def forOffsetDateTime_def split: if_splits option.splits\<close>)

lemma new_Tag_outcome:
  "case new_Tag c str of
     Inl e \<Rightarrow>
       (case exec (PATTERN c) str 0 of
          None \<Rightarrow> e = CannotParseTag (ID c) str
        | Some m \<Rightarrow> field_value_error e)
   | Inr t \<Rightarrow>
       (\<exists>m. exec (PATTERN c) str 0 = Some m) \<and> tag_id t = ID c \<and> tag_data t = str \<and>
       complete_record c (fields t)"
proof (cases "exec (PATTERN c) str 0")
  case None
  then show ?thesis by (simp add: new_Tag_def)
next
  case (Some m)
  then have g: "\<forall>n\<in>sure (PATTERN c). \<exists>v. groups m n = Some v"
    by (auto dest: exec_defined)
  show ?thesis
  proof (cases "extractFields c str m")
    case (Inl e)
    from extractFields_error[OF this g] Some Inl show ?thesis by (simp add: new_Tag_def)
  next
    case (Inr p)
    obtain f st where p: "p = (f, st)" by (cases p)
    from Some Inr p have t: "new_Tag c str = Inr (Tag (ID c) str f st)"
      by (simp add: new_Tag_def)
    have "complete_record c f"
    proof (cases "c = TagMessageBlock")
      case True
      from new_Tag_MessageBlock[OF t[unfolded True]] show ?thesis
        by (simp add: complete_record_def True)
    next
      case False
      from extractFields_complete[OF Inr[unfolded p] g False] show ?thesis .
    qed
    with t Some show ?thesis by simp
  qed
qed

lemma tagClass_of_numeric:
  assumes "ID c = KNum n" and "int_toString n = [a, b]" and "a \<notin> set ''139NM''"
  shows "tagClass_of (IdNumber n) subId = Some c"
proof -
  have "\<forall>c'. ID c' \<noteq> KStr (fullTagId_of (IdNumber n) subId)"
    using assms(3) by (auto simp: ID_neq_cases fullTagId_of_IdNumber assms(2))
  then have "tagMap (KStr (fullTagId_of (IdNumber n) subId)) = None" by (simp add: tagMap_None)
  moreover have "tagMap_get (tagId_of (IdNumber n)) = Some c"
    by (simp add: tagMap_get_def tagId_of_IdNumber tagId_key_def tagMap_iff assms(1))
  ultimately show ?thesis by (simp add: tagClass_of_def)
qed

lemma OpeningBalance_examples:
  "tagClass_of (IdNumber 60) [] = Some TagOpeningBalance"
  "exec PATTERN_Balance ''X230101EUR1,00'' 0 = None"
  "createTag (IdNumber 60) [] ''C230101EUR'' = Inl (AmountCannotBeParsed [])"
  "\<exists>t. createTag (IdNumber 60) [] ''C230101EUR1,50'' = Inr t"
proof -
  have i: "int_toString 60 = ''60''" by (simp add: int_toString_def)
  show c: "tagClass_of (IdNumber 60) [] = Some TagOpeningBalance"
    by (rule tagClass_of_numeric[where a = "CHR ''6''" and b = "CHR ''0''"]) (simp_all add: i)
  show "exec PATTERN_Balance ''X230101EUR1,00'' 0 = None"
    by (simp add: regex_eval)
  have a: "amount_result [] False = Inl (AmountCannotBeParsed [])"
    "amount_result ''1,50'' False = Inr (Big False (3 / 2))"
    by code_simp+
  have "\<exists>m. exec PATTERN_Balance ''C230101EUR'' 0 = Some m \<and>
      groups m 1 = Some ''C'' \<and> groups m 6 = Some []"
    by (simp add: regex_eval)
  then show "createTag (IdNumber 60) [] ''C230101EUR'' = Inl (AmountCannotBeParsed [])"
    by (auto simp: createTag_def c new_Tag_def Balance_extractFields_def amount_of_groups_def
        BankAmount_parse_C a)
  have "\<exists>m. exec PATTERN_Balance ''C230101EUR1,50'' 0 = Some m \<and>
      groups m 1 = Some ''C'' \<and> groups m 6 = Some ''1,50''"
    by (simp add: regex_eval)
  then show "\<exists>t. createTag (IdNumber 60) [] ''C230101EUR1,50'' = Inr t"
    by (auto simp: createTag_def c new_Tag_def Balance_extractFields_def amount_of_groups_def
        BankAmount_parse_C a)
qed

text \<open>
  Claim C8.  For every tag id, sub id and data string, \<open>createTag\<close> ends in one of two
  ways.  Either it fails, and no tag instance is made: with the error of an unknown tag
  where no rule is found; with \<open>Cannot parse tag <id>: <data>\<close> (the id being the rule's)
  where the rule's pattern does not match the data; and, where the pattern did match,
  with an error of a field value (a wrong mark or amount, from \<open>BankAmount.parse\<close>).  Or it
  returns a tag of a rule whose pattern matched, with the rule's id, the data, and the
  complete field record: exactly the fields that the specification lists for the
  rule, none of them \<open>undefined\<close> (for the message block: string fields under the keys
  \<open>EOB\<close> and the block numbers).
\<close>

theorem extraction_all_or_nothing:
  "(\<exists>e. createTag ident subId str = Inl e \<and>
        (case tagClass_of ident subId of
           None \<Rightarrow> e = UnknownTag (fullTagId_of ident subId)
         | Some c \<Rightarrow>
             (case exec (PATTERN c) str 0 of
                None \<Rightarrow> e = CannotParseTag (ID c) str
              | Some m \<Rightarrow> field_value_error e))) \<or>
   (\<exists>t c m. createTag ident subId str = Inr t \<and> tagClass_of ident subId = Some c \<and>
        exec (PATTERN c) str 0 = Some m \<and> tag_id t = ID c \<and> tag_data t = str \<and>
        complete_record c (fields t))"
proof (cases "tagClass_of ident subId")
  case None
  then show ?thesis by (simp add: createTag_def)
next
  case (Some c)
  then have c: "createTag ident subId str = new_Tag c str" by (simp add: createTag_def)
  show ?thesis
  proof (cases "new_Tag c str")
    case (Inl e)
    with new_Tag_outcome[of c str] show ?thesis by (simp add: c Some)
  next
    case (Inr t)
    with new_Tag_outcome[of c str] show ?thesis by (auto simp: c Some)
  qed
qed

theorem extraction_all_or_nothing_witness:
  "createTag (IdNumber 60) [] ''X230101EUR1,00'' =
     Inl (CannotParseTag (KNum 60) ''X230101EUR1,00'') \<and>
   createTag (IdNumber 60) [] ''C230101EUR'' = Inl (AmountCannotBeParsed []) \<and>
   field_value_error (AmountCannotBeParsed []) \<and>
   (\<exists>t. createTag (IdNumber 60) [] ''C230101EUR1,50'' = Inr t \<and>
      tag_id t = KNum 60 \<and> tag_data t = ''C230101EUR1,50'' \<and>
      dom (fields t) = {''date'', ''currency'', ''amount''} \<and> VUndefined \<notin> ran (fields t))"
proof (intro conjI)
  note ex = OpeningBalance_examples
  from extraction_all_or_nothing[of "IdNumber 60" "[]" "''X230101EUR1,00''"]
  show "createTag (IdNumber 60) [] ''X230101EUR1,00'' =
     Inl (CannotParseTag (KNum 60) ''X230101EUR1,00'')"
    by (auto simp: ex(1,2))
  from extraction_all_or_nothing[of "IdNumber 60" "[]" "''C230101EUR''"]
  show "createTag (IdNumber 60) [] ''C230101EUR'' = Inl (AmountCannotBeParsed [])"
    by (simp add: ex(3))
  show "field_value_error (AmountCannotBeParsed [])" by simp
  from ex(4) obtain t where t: "createTag (IdNumber 60) [] ''C230101EUR1,50'' = Inr t" ..
  from extraction_all_or_nothing[of "IdNumber 60" "[]" "''C230101EUR1,50''"]
  have "tag_id t = KNum 60 \<and> tag_data t = ''C230101EUR1,50'' \<and>
      complete_record TagOpeningBalance (fields t)"
    by (auto simp: t ex(1))
  then have "tag_id t = KNum 60 \<and> tag_data t = ''C230101EUR1,50'' \<and>
      dom (fields t) = {''date'', ''currency'', ''amount''} \<and> VUndefined \<notin> ran (fields t)"
    by (simp add: complete_record_def)
  with t show "\<exists>t. createTag (IdNumber 60) [] ''C230101EUR1,50'' = Inr t \<and>
      tag_id t = KNum 60 \<and> tag_data t = ''C230101EUR1,50'' \<and>
      dom (fields t) = {''date'', ''currency'', ''amount''} \<and> VUndefined \<notin> ran (fields t)"
    by (intro exI[of _ t]) simp
qed

end
